theory Spec2Isabelle
  imports Main
begin

section \<open>JavaScript values and strings\<close>

text \<open>
  The two source files (\<^verbatim>\<open>prefs.js\<close>, the preferences editor, and \<^verbatim>\<open>extension.js\<close>, the
  shell popup) keep their data as plain JavaScript objects that come out of
  \<^verbatim>\<open>JSON.parse\<close> and go into \<^verbatim>\<open>JSON.stringify\<close>. A value of that kind is a \<open>json\<close>; an object
  is its property list in insertion order. Strings are byte strings: the UTF-8 text of the
  files. Numbers are integers (ranks, millisecond time stamps).
\<close>

datatype json =
    JNull
  | JBool bool
  | JNum int
  | JStr string
  | JArr "json list"
  | JObj "(string \<times> json) list"

type_synonym jobj = "(string \<times> json) list"

text \<open>\<^verbatim>\<open>JSON.parse\<close> and \<^verbatim>\<open>JSON.stringify\<close> are built-ins of the language, not code of the
  repository: the functions that call them take them as arguments. \<open>None\<close> is a thrown
  \<^verbatim>\<open>SyntaxError\<close>.\<close>

type_synonym parser = "string \<Rightarrow> json option"
type_synonym printer = "json \<Rightarrow> string"

text \<open>\<^verbatim>\<open>s.endsWith(suffix)\<close>\<close>

definition endsWith :: "string \<Rightarrow> string \<Rightarrow> bool" where
  "endsWith s suffix =
     (length suffix \<le> length s \<and> drop (length s - length suffix) s = suffix)"

text \<open>\<^verbatim>\<open>text.split('\n')\<close> and \<^verbatim>\<open>lines.join('\n')\<close>\<close>

definition newline :: char where
  "newline = CHR 0x0A"

fun split :: "char \<Rightarrow> string \<Rightarrow> string list" where
  "split sep [] = [[]]"
| "split sep (c # cs) =
     (if c = sep then [] # split sep cs
      else (case split sep cs of
              [] \<Rightarrow> [[c]]
            | l # ls \<Rightarrow> (c # l) # ls))"

fun join :: "string \<Rightarrow> string list \<Rightarrow> string" where
  "join sep [] = []"
| "join sep [l] = l"
| "join sep (l # l' # ls) = l @ sep @ join sep (l' # ls)"

text \<open>
  \<^verbatim>\<open>line.trim().length > 0\<close> fails exactly for a line made of white space and line
  terminators only. In UTF-8 these are the one-byte characters TAB, LF, VT, FF, CR, SP,
  the two-byte U+00A0, and the three-byte U+1680, U+2000..U+200A, U+2028, U+2029, U+202F,
  U+205F, U+3000 and U+FEFF.
\<close>

definition is_ws1 :: "char \<Rightarrow> bool" where
  "is_ws1 a = (a \<in> set [CHR 0x09, CHR 0x0A, CHR 0x0B, CHR 0x0C, CHR 0x0D, CHR 0x20])"

definition is_ws2 :: "char \<Rightarrow> char \<Rightarrow> bool" where
  "is_ws2 a b = (a = CHR 0xC2 \<and> b = CHR 0xA0)"

definition is_ws3 :: "char \<Rightarrow> char \<Rightarrow> char \<Rightarrow> bool" where
  "is_ws3 a b c =
     ((a = CHR 0xE1 \<and> b = CHR 0x9A \<and> c = CHR 0x80)
    \<or> (a = CHR 0xE2 \<and> b = CHR 0x80 \<and>
         (of_char c \<in> set [0x80 ..< 0x8B :: nat] \<or> c \<in> set [CHR 0xA8, CHR 0xA9, CHR 0xAF]))
    \<or> (a = CHR 0xE2 \<and> b = CHR 0x81 \<and> c = CHR 0x9F)
    \<or> (a = CHR 0xE3 \<and> b = CHR 0x80 \<and> c = CHR 0x80)
    \<or> (a = CHR 0xEF \<and> b = CHR 0xBB \<and> c = CHR 0xBF))"

fun blank :: "string \<Rightarrow> bool" where
  "blank [] = True"
| "blank [a] = is_ws1 a"
| "blank [a, b] = (if is_ws1 a then blank [b] else is_ws2 a b)"
| "blank (a # b # c # cs) =
     (if is_ws1 a then blank (b # c # cs)
      else if is_ws2 a b then blank (c # cs)
      else if is_ws3 a b c then blank cs
      else False)"

text \<open>\<^verbatim>\<open>new TextDecoder().decode(contents)\<close>: the text of the bytes, without a leading byte
  order mark. (Ill-formed UTF-8, which the decoder replaces by U+FFFD, is not modelled.)\<close>

fun decode :: "string \<Rightarrow> string" where
  "decode (a # b # c # cs) =
     (if a = CHR 0xEF \<and> b = CHR 0xBB \<and> c = CHR 0xBF then cs else a # b # c # cs)"
| "decode cs = cs"

text \<open>\<^verbatim>\<open>text.split('\n').filter(line => line.trim().length > 0)\<close>, the first step of all
  three loaders.\<close>

definition file_lines :: "string \<Rightarrow> string list" where
  "file_lines contents = filter (\<lambda>line. \<not> blank line) (split newline (decode contents))"

text \<open>What \<^verbatim>\<open>file.load_contents(null)\<close> gives: it throws (the file is missing or
  unreadable), or returns \<^verbatim>\<open>[false, _]\<close>, or returns \<^verbatim>\<open>[true, contents]\<close>.\<close>

datatype load_contents = ReadThrows | ReadNoSuccess | ReadOk string

text \<open>What a surface does to the world outside its variables, in order: a file it has
  written (path and contents), an error it has logged, a notification it has shown, and
  a debounced callback it has run.\<close>

datatype effect =
    Wrote string string
  | Logged string
  | Notified string
  | ReloadedCategories
  | RefreshedApps

section \<open>The shell popup: recents\<close>

definition MAX_RECENTS :: nat where
  "MAX_RECENTS = 15"

definition RELOAD_DELAY_MS :: nat where
  "RELOAD_DELAY_MS = 500"

text \<open>The two callbacks that are handed to \<^verbatim>\<open>GLib.timeout_add\<close>: the one of the
  categories file watcher, and the one shared by the \<^verbatim>\<open>installed-changed\<close> handler and the
  application directory monitors.\<close>

datatype callback = ReloadCategoriesCb | RefreshAppsCb

text \<open>
  The module state of \<^verbatim>\<open>extension.js\<close> that the claims are about. \<open>recents\<close> holds objects
  only (the loader keeps nothing else), so an entry is its property list. \<open>sources\<close> are
  the pending GLib timeouts: identifier, due time in milliseconds, callback.
\<close>

record popup =
  basePath :: string
  recents :: "jobj list"
  reloadTimeoutId :: nat
  sources :: "(nat \<times> nat \<times> callback) list"
  next_source :: nat
  clock :: nat
  trace :: "effect list"

definition filesDir :: "string \<Rightarrow> string" where
  "filesDir base = base @ ''/.files''"

definition categoriesFilePath :: "string \<Rightarrow> string" where
  "categoriesFilePath base = filesDir base @ ''/categories.jsonl''"

definition recentsFilePath :: "string \<Rightarrow> string" where
  "recentsFilePath base = filesDir base @ ''/recents.jsonl''"

text \<open>\<^verbatim>\<open>recent && typeof recent.id === 'string'\<close>: only an object has an \<^verbatim>\<open>id\<close> property.\<close>

fun has_string_id :: "json \<Rightarrow> bool" where
  "has_string_id (JObj kvs) = (case map_of kvs ''id'' of Some (JStr _) \<Rightarrow> True | _ \<Rightarrow> False)"
| "has_string_id _ = False"

fun the_obj :: "json \<Rightarrow> jobj" where
  "the_obj (JObj kvs) = kvs"
| "the_obj _ = []"

text \<open>\<^verbatim>\<open>lines.map(line => JSON.parse(line))\<close>: the first line that does not parse throws.\<close>

fun parse_all :: "parser \<Rightarrow> string list \<Rightarrow> json list option" where
  "parse_all parse [] = Some []"
| "parse_all parse (l # ls) =
     (case parse l of
        None \<Rightarrow> None
      | Some v \<Rightarrow> (case parse_all parse ls of None \<Rightarrow> None | Some vs \<Rightarrow> Some (v # vs)))"

definition loadRecentsFromDisk :: "parser \<Rightarrow> load_contents \<Rightarrow> popup \<Rightarrow> popup" where
  "loadRecentsFromDisk parse rd st =
     (case rd of
        ReadThrows \<Rightarrow> st\<lparr>recents := []\<rparr>
      | ReadNoSuccess \<Rightarrow> st
      | ReadOk contents \<Rightarrow>
          (case parse_all parse (file_lines contents) of
             None \<Rightarrow> st\<lparr>recents := []\<rparr>
           | Some vs \<Rightarrow>
               st\<lparr>recents := take MAX_RECENTS (map the_obj (filter has_string_id vs))\<rparr>))"

text \<open>\<open>write_ok\<close> says whether \<^verbatim>\<open>GLib.file_set_contents\<close> succeeds.\<close>

definition saveRecentsToDisk :: "printer \<Rightarrow> bool \<Rightarrow> popup \<Rightarrow> popup" where
  "saveRecentsToDisk stringify write_ok st =
     (let data = join [newline] (map (\<lambda>recent. stringify (JObj recent)) (recents st)) in
      if write_ok
      then st\<lparr>trace := trace st @ [Wrote (recentsFilePath (basePath st)) data]\<rparr>
      else st\<lparr>trace := trace st @
                 [Logged ''Failed to write recents.jsonl'',
                  Notified ''Could not save recents.jsonl'']\<rparr>)"

definition recent_id :: "jobj \<Rightarrow> json option" where
  "recent_id recent = map_of recent ''id''"

text \<open>\<open>now\<close> is the value of \<^verbatim>\<open>Date.now()\<close>.\<close>

definition bumpRecent :: "printer \<Rightarrow> bool \<Rightarrow> int \<Rightarrow> string \<Rightarrow> popup \<Rightarrow> popup" where
  "bumpRecent stringify write_ok now desktopId st =
     (if desktopId = [] \<or> \<not> endsWith desktopId ''.desktop'' then st
      else
        let rs = filter (\<lambda>recent. recent_id recent \<noteq> Some (JStr desktopId)) (recents st);
            rs' = [(''id'', JStr desktopId), (''ts'', JNum now)] # rs;
            rs'' = (if length rs' > MAX_RECENTS then take MAX_RECENTS rs' else rs')
        in saveRecentsToDisk stringify write_ok (st\<lparr>recents := rs''\<rparr>))"

text \<open>A run of launches: each is one call of \<open>bumpRecent\<close>, with its own clock value and
  its own outcome of the write.\<close>

fun bumps :: "printer \<Rightarrow> (bool \<times> int \<times> string) list \<Rightarrow> popup \<Rightarrow> popup" where
  "bumps stringify [] st = st"
| "bumps stringify ((write_ok, now, desktopId) # calls) st =
     bumps stringify calls (bumpRecent stringify write_ok now desktopId st)"

definition valid_desktop_id :: "string \<Rightarrow> bool" where
  "valid_desktop_id desktopId = (desktopId \<noteq> [] \<and> endsWith desktopId ''.desktop'')"

text \<open>The order the claim speaks of, without the capacity: every launch moves its id to the
  front.\<close>

definition move_to_front :: "'a \<Rightarrow> 'a list \<Rightarrow> 'a list" where
  "move_to_front x xs = x # removeAll x xs"

definition most_recent_first :: "'a list \<Rightarrow> 'a list \<Rightarrow> 'a list" where
  "most_recent_first launched old = fold move_to_front launched old"

text \<open>The ids of a run of calls that pass the guard of \<open>bumpRecent\<close>, in call order.\<close>

definition bumped :: "(bool \<times> int \<times> string) list \<Rightarrow> string list" where
  "bumped calls = filter valid_desktop_id (map (\<lambda>c. snd (snd c)) calls)"

section \<open>The shell popup: debounced reloads\<close>

text \<open>\<^verbatim>\<open>Gio.FileMonitorEvent\<close>\<close>

datatype FileMonitorEvent =
    CHANGED | CHANGES_DONE_HINT | DELETED | CREATED | ATTRIBUTE_CHANGED
  | PRE_UNMOUNT | UNMOUNTED | MOVED | RENAMED | MOVED_IN | MOVED_OUT

text \<open>\<^verbatim>\<open>GLib.source_remove(tag)\<close> and \<^verbatim>\<open>GLib.timeout_add(priority, interval, callback)\<close>: the new
  source gets a fresh non-zero tag and is due \<open>interval\<close> milliseconds from now.\<close>

definition source_remove :: "nat \<Rightarrow> popup \<Rightarrow> popup" where
  "source_remove tag st = st\<lparr>sources := filter (\<lambda>(i, due, cb). i \<noteq> tag) (sources st)\<rparr>"

definition timeout_add :: "nat \<Rightarrow> callback \<Rightarrow> popup \<Rightarrow> nat \<times> popup" where
  "timeout_add interval cb st =
     (let tag = Suc (next_source st) in
      (tag, st\<lparr>sources := sources st @ [(tag, clock st + interval, cb)], next_source := tag\<rparr>))"

text \<open>The body that the three signal handlers share, each with its own callback: remove the
  source \<open>reloadTimeoutId\<close> names, if any, and keep the tag of a new one there.\<close>

definition rearm :: "callback \<Rightarrow> popup \<Rightarrow> popup" where
  "rearm cb st =
     (let st1 = (if reloadTimeoutId st \<noteq> 0 then source_remove (reloadTimeoutId st) st else st);
          (tag, st2) = timeout_add RELOAD_DELAY_MS cb st1
      in st2\<lparr>reloadTimeoutId := tag\<rparr>)"

text \<open>\<open>setupAppListWatcher\<close>: the \<^verbatim>\<open>installed-changed\<close> handler and the handler of the
  application directory monitors.\<close>

definition on_installed_changed :: "popup \<Rightarrow> popup" where
  "on_installed_changed st = rearm RefreshAppsCb st"

definition on_directory_changed :: "popup \<Rightarrow> popup" where
  "on_directory_changed st = rearm RefreshAppsCb st"

text \<open>\<open>setupCategoriesFileWatcher\<close>: the handler of the monitor of \<^verbatim>\<open>categories.jsonl\<close>.\<close>

definition on_categories_file_changed :: "FileMonitorEvent \<Rightarrow> popup \<Rightarrow> popup" where
  "on_categories_file_changed eventType st =
     (if eventType = CHANGES_DONE_HINT \<or> eventType = CREATED
      then rearm ReloadCategoriesCb st
      else st)"

text \<open>The two timeout callbacks. The reload callback calls \<open>loadCategoriesFromDisk\<close>,
  \<open>getAllIcons\<close> twice and \<open>rebuildCategoriesMenu\<close>; the trace records the run as one
  \<open>ReloadedCategories\<close>. Both return \<^verbatim>\<open>GLib.SOURCE_REMOVE\<close>.\<close>

fun run_callback :: "callback \<Rightarrow> popup \<Rightarrow> popup" where
  "run_callback ReloadCategoriesCb st =
     st\<lparr>trace := trace st @ [ReloadedCategories], reloadTimeoutId := 0\<rparr>"
| "run_callback RefreshAppsCb st =
     st\<lparr>trace := trace st @ [RefreshedApps], reloadTimeoutId := 0\<rparr>"

text \<open>The main loop: when time has passed, every source that is due and still pending runs
  once and is removed.\<close>

fun dispatch :: "(nat \<times> nat \<times> callback) list \<Rightarrow> popup \<Rightarrow> popup" where
  "dispatch [] st = st"
| "dispatch ((tag, due, cb) # ds) st =
     dispatch ds
       (if (tag, due, cb) \<in> set (sources st) then run_callback cb (source_remove tag st) else st)"

definition elapse :: "nat \<Rightarrow> popup \<Rightarrow> popup" where
  "elapse ms st =
     (let st1 = st\<lparr>clock := clock st + ms\<rparr> in
      dispatch (filter (\<lambda>(tag, due, cb). due \<le> clock st1) (sources st1)) st1)"

datatype event =
    CategoriesFileChanged FileMonitorEvent
  | InstalledChanged
  | DirectoryChanged
  | Elapse nat

fun step :: "event \<Rightarrow> popup \<Rightarrow> popup" where
  "step (CategoriesFileChanged eventType) st = on_categories_file_changed eventType st"
| "step InstalledChanged st = on_installed_changed st"
| "step DirectoryChanged st = on_directory_changed st"
| "step (Elapse ms) st = elapse ms st"

definition run :: "event list \<Rightarrow> popup \<Rightarrow> popup" where
  "run events st = fold step events st"

definition reloads :: "popup \<Rightarrow> nat" where
  "reloads st = length (filter (\<lambda>e. e = ReloadedCategories) (trace st))"

text \<open>The popup right after \<open>enable\<close>: nothing pending.\<close>

definition enabled :: "string \<Rightarrow> popup" where
  "enabled base =
     \<lparr>basePath = base, recents = [], reloadTimeoutId = 0, sources = [], next_source = 0,
      clock = 0, trace = []\<rparr>"

text \<open>
  What the monitor made by \<open>setupCategoriesFileWatcher\<close> does when the file at \<open>path\<close> has
  been written: a file monitor reports the events of its own file only, so the handler
  runs, once for each event type of the write, when \<open>path\<close> is the categories file.
\<close>

definition notify_written :: "FileMonitorEvent list \<Rightarrow> string \<Rightarrow> popup \<Rightarrow> popup" where
  "notify_written eventTypes path st =
     (if path = categoriesFilePath (basePath st)
      then fold on_categories_file_changed eventTypes st
      else st)"

fun written_paths :: "effect list \<Rightarrow> string list" where
  "written_paths [] = []"
| "written_paths (Wrote path contents # es) = path # written_paths es"
| "written_paths (e # es) = written_paths es"

text \<open>One launch from the menu: \<open>bumpRecent\<close>, then the change notifications of the files it
  wrote.\<close>

definition launch ::
  "printer \<Rightarrow> bool \<Rightarrow> int \<Rightarrow> string \<Rightarrow> FileMonitorEvent list \<Rightarrow> popup \<Rightarrow> popup" where
  "launch stringify write_ok now desktopId eventTypes st =
     (let st1 = bumpRecent stringify write_ok now desktopId st;
          written = written_paths (drop (length (trace st)) (trace st1))
      in fold (notify_written eventTypes) written st1)"

text \<open>A list as a hand-edited \<^verbatim>\<open>recents.jsonl\<close> gives it: the same id twice.\<close>

definition recents_with_repeat :: popup where
  "recents_with_repeat =
     (enabled ''/e'')\<lparr>recents :=
        [[(''id'', JStr ''a.desktop''), (''ts'', JNum 1)],
         [(''id'', JStr ''a.desktop''), (''ts'', JNum 2)]]\<rparr>"

text \<open>A burst of changes of the categories file: each change comes \<open>gap\<close> milliseconds
  after the one before it.\<close>

definition burst :: "(nat \<times> FileMonitorEvent) list \<Rightarrow> event list" where
  "burst changes = concat (map (\<lambda>(gap, eventType). [Elapse gap, CategoriesFileChanged eventType]) changes)"

definition qualifying :: "FileMonitorEvent \<Rightarrow> bool" where
  "qualifying eventType = (eventType = CHANGES_DONE_HINT \<or> eventType = CREATED)"

text \<open>The watcher is armed: the one pending timeout is the reload, due 500 ms after the
  last change, and \<open>reloadTimeoutId\<close> names it.\<close>

definition armed :: "popup \<Rightarrow> bool" where
  "armed st =
     (reloadTimeoutId st \<noteq> 0 \<and>
      sources st = [(reloadTimeoutId st, clock st + RELOAD_DELAY_MS, ReloadCategoriesCb)])"

section \<open>The category store\<close>

text \<open>
  A category is \<^verbatim>\<open>{name, rank, apps}\<close> with \<^verbatim>\<open>rank\<close> an integer or \<^verbatim>\<open>null\<close>; an entry of \<^verbatim>\<open>apps\<close> is
  \<^verbatim>\<open>{id, name, rank}\<close>. The store is a JavaScript \<^verbatim>\<open>Map\<close> from names to categories: it keeps
  the order in which keys were inserted, so it is the list of its entries.
\<close>

record app =
  app_id :: string
  app_name :: string
  app_rank :: int

record category =
  name :: string
  rank :: "int option"
  apps :: "app list"

type_synonym categories = "(string \<times> category) list"

text \<open>\<^verbatim>\<open>map.set(key, value)\<close>: an existing key keeps its place, a new one goes to the end.
  \<^verbatim>\<open>map.delete(key)\<close>. \<^verbatim>\<open>new Map(entries)\<close> sets the entries one after the other.\<close>

fun Map_set :: "('k \<times> 'v) list \<Rightarrow> 'k \<Rightarrow> 'v \<Rightarrow> ('k \<times> 'v) list" where
  "Map_set [] key v = [(key, v)]"
| "Map_set ((k, w) # m) key v = (if k = key then (key, v) # m else (k, w) # Map_set m key v)"

definition Map_delete :: "('k \<times> 'v) list \<Rightarrow> 'k \<Rightarrow> ('k \<times> 'v) list" where
  "Map_delete m key = filter (\<lambda>(k, v). k \<noteq> key) m"

definition new_Map :: "('k \<times> 'v) list \<Rightarrow> ('k \<times> 'v) list" where
  "new_Map entries = fold (\<lambda>(k, v) m. Map_set m k v) entries []"

text \<open>\<^verbatim>\<open>array.findIndex(p)\<close> and \<^verbatim>\<open>array.indexOf(x)\<close>: \<open>-1\<close> when there is none.\<close>

fun findIndex :: "('a \<Rightarrow> bool) \<Rightarrow> 'a list \<Rightarrow> int" where
  "findIndex p [] = - 1"
| "findIndex p (x # xs) =
     (if p x then 0 else (let i = findIndex p xs in if i < 0 then - 1 else i + 1))"

definition indexOf :: "'a list \<Rightarrow> 'a \<Rightarrow> int" where
  "indexOf xs x = findIndex (\<lambda>y. y = x) xs"

text \<open>The objects of the schema as JSON values, and back. An object with other keys, or
  with values of other types, is not a category of the schema.\<close>

definition app_to_json :: "app \<Rightarrow> json" where
  "app_to_json a =
     JObj [(''id'', JStr (app_id a)), (''name'', JStr (app_name a)), (''rank'', JNum (app_rank a))]"

definition rank_to_json :: "int option \<Rightarrow> json" where
  "rank_to_json r = (case r of None \<Rightarrow> JNull | Some n \<Rightarrow> JNum n)"

definition category_to_json :: "category \<Rightarrow> json" where
  "category_to_json c =
     JObj [(''name'', JStr (name c)), (''rank'', rank_to_json (rank c)),
           (''apps'', JArr (map app_to_json (apps c)))]"

fun app_of_json :: "json \<Rightarrow> app option" where
  "app_of_json (JObj kvs) =
     (if length kvs \<noteq> 3 then None
      else (case (map_of kvs ''id'', map_of kvs ''name'', map_of kvs ''rank'') of
              (Some (JStr i), Some (JStr n), Some (JNum r)) \<Rightarrow>
                 Some \<lparr>app_id = i, app_name = n, app_rank = r\<rparr>
            | _ \<Rightarrow> None))"
| "app_of_json _ = None"

fun rank_of_json :: "json \<Rightarrow> int option option" where
  "rank_of_json JNull = Some None"
| "rank_of_json (JNum n) = Some (Some n)"
| "rank_of_json _ = None"

fun category_of_json :: "json \<Rightarrow> category option" where
  "category_of_json (JObj kvs) =
     (if length kvs \<noteq> 3 then None
      else (case (map_of kvs ''name'', map_of kvs ''rank'', map_of kvs ''apps'') of
              (Some (JStr n), Some r, Some (JArr as)) \<Rightarrow>
                 (case (rank_of_json r, those (map app_of_json as)) of
                    (Some r', Some as') \<Rightarrow> Some \<lparr>name = n, rank = r', apps = as'\<rparr>
                  | _ \<Rightarrow> None)
            | _ \<Rightarrow> None))"
| "category_of_json _ = None"

section \<open>The preferences editor\<close>

text \<open>The module state of \<^verbatim>\<open>prefs.js\<close> that the claims are about, and what the editor has
  written and logged so far.\<close>

record prefs =
  extension_path :: string
  categories :: categories
  effects :: "effect list"

text \<open>
  One line of \<^verbatim>\<open>categories.jsonl\<close> in the loop of \<open>loadCategories\<close>:
  \<^verbatim>\<open>const category = JSON.parse(line); categoriesMap.set(category.name, category)\<close>. The line
  throws when it is not JSON (\<^verbatim>\<open>SyntaxError\<close>) or is \<^verbatim>\<open>null\<close> (\<^verbatim>\<open>TypeError\<close>); it stores a
  category of the schema; or it stores a value that is none, which the typed store of this
  theory cannot hold (\<open>Foreign\<close>).
\<close>

datatype parsed_line = Threw | Foreign | Category category

definition parse_category :: "parser \<Rightarrow> string \<Rightarrow> parsed_line" where
  "parse_category parse line =
     (case parse line of
        None \<Rightarrow> Threw
      | Some JNull \<Rightarrow> Threw
      | Some v \<Rightarrow> (case category_of_json v of None \<Rightarrow> Foreign | Some c \<Rightarrow> Category c))"

text \<open>\<^verbatim>\<open>lines.forEach(...)\<close> on the cleared map. The result is the map when the loop ends and
  whether it ended by a throw; \<open>None\<close> when a line is \<open>Foreign\<close>.\<close>

fun load_lines :: "parser \<Rightarrow> string list \<Rightarrow> categories \<Rightarrow> (categories \<times> bool) option" where
  "load_lines parse [] m = Some (m, False)"
| "load_lines parse (line # lines) m =
     (case parse_category parse line of
        Threw \<Rightarrow> Some (m, True)
      | Foreign \<Rightarrow> None
      | Category c \<Rightarrow> load_lines parse lines (Map_set m (name c) c))"

definition loadCategories :: "parser \<Rightarrow> load_contents \<Rightarrow> prefs \<Rightarrow> prefs option" where
  "loadCategories parse rd st =
     (case rd of
        ReadThrows \<Rightarrow> Some (st\<lparr>effects := effects st @ [Logged ''Failed to load categories.jsonl'']\<rparr>)
      | ReadNoSuccess \<Rightarrow> Some st
      | ReadOk contents \<Rightarrow>
          (case load_lines parse (file_lines contents) [] of
             None \<Rightarrow> None
           | Some (m, threw) \<Rightarrow>
               Some (st\<lparr>categories := m,
                        effects := effects st @
                          (if threw then [Logged ''Failed to load categories.jsonl''] else [])\<rparr>)))"

text \<open>\<open>saveCategoriesToFile\<close>: one line for each value of the map, joined by newlines, and a
  final newline. \<open>write_ok\<close> says whether \<^verbatim>\<open>replace\<close>, \<^verbatim>\<open>write_all\<close> and \<^verbatim>\<open>close\<close> succeed.\<close>

definition categories_text :: "printer \<Rightarrow> categories \<Rightarrow> string" where
  "categories_text stringify m =
     join [newline] (map (\<lambda>(k, category). stringify (category_to_json category)) m) @ [newline]"

definition saveCategoriesToFile :: "printer \<Rightarrow> bool \<Rightarrow> prefs \<Rightarrow> prefs" where
  "saveCategoriesToFile stringify write_ok st =
     (if write_ok
      then st\<lparr>effects := effects st @
                 [Wrote (categoriesFilePath (extension_path st))
                    (categories_text stringify (categories st))]\<rparr>
      else st\<lparr>effects := effects st @ [Logged ''Failed to save categories.jsonl'']\<rparr>)"

text \<open>
  \<open>cleanupCategories\<close>. \<open>installed desktopId\<close> stands for
  \<^verbatim>\<open>Gio.DesktopAppInfo.new(desktopId) !== null && appInfo.should_show()\<close>. The sort is the
  stable \<^verbatim>\<open>validApps.sort((a, b) => a.rank - b.rank)\<close>.
\<close>

definition desktopId_of :: "string \<Rightarrow> string" where
  "desktopId_of i = (if endsWith i ''.desktop'' then i else i @ ''.desktop'')"

definition renumber :: "app list \<Rightarrow> app list" where
  "renumber validApps =
     map (\<lambda>(a, index). a\<lparr>app_rank := int index + 1\<rparr>) (zip validApps [0 ..< length validApps])"

definition cleanup_category :: "(string \<Rightarrow> bool) \<Rightarrow> category \<Rightarrow> category \<times> bool" where
  "cleanup_category installed category =
     (if apps category = [] then (category, False)
      else
        let originalLength = length (apps category);
            validApps = filter (\<lambda>a. installed (desktopId_of (app_id a))) (apps category)
        in if length validApps \<noteq> originalLength
           then (category\<lparr>apps := renumber (sort_key app_rank validApps)\<rparr>, True)
           else (category, False))"

fun cleanup_loop ::
  "(string \<Rightarrow> bool) \<Rightarrow> (string \<times> category) list \<Rightarrow> categories \<Rightarrow> bool \<Rightarrow> categories \<times> bool"
where
  "cleanup_loop installed [] m changesMade = (m, changesMade)"
| "cleanup_loop installed ((categoryName, category) # entries) m changesMade =
     (case cleanup_category installed category of
        (category', True) \<Rightarrow> cleanup_loop installed entries (Map_set m categoryName category') True
      | (category', False) \<Rightarrow> cleanup_loop installed entries m changesMade)"

definition cleanupCategories :: "(string \<Rightarrow> bool) \<Rightarrow> prefs \<Rightarrow> prefs \<times> bool" where
  "cleanupCategories installed st =
     (case cleanup_loop installed (categories st) (categories st) False of
        (m, changesMade) \<Rightarrow> (st\<lparr>categories := m\<rparr>, changesMade))"

text \<open>
  The arrays of categories that the handlers sort and write through hold the objects of
  the map themselves. An object is named here by its position in the map.
  \<open>rankedCategories\<close> is
  \<^verbatim>\<open>Array.from(categories.values()).filter(cat => cat.rank !== null).sort((a, b) => a.rank - b.rank)\<close>.
\<close>

definition value_at :: "categories \<Rightarrow> nat \<Rightarrow> category" where
  "value_at m i = snd (m ! i)"

definition rankedCategories :: "categories \<Rightarrow> nat list" where
  "rankedCategories m =
     sort_key (\<lambda>i. the (rank (value_at m i)))
       (filter (\<lambda>i. rank (value_at m i) \<noteq> None) [0 ..< length m])"

definition set_rank :: "nat \<Rightarrow> int option \<Rightarrow> categories \<Rightarrow> categories" where
  "set_rank i r m = m[i := (fst (m ! i), (snd (m ! i))\<lparr>rank := r\<rparr>)]"

text \<open>\<open>moveSelectedCategory(delta)\<close>; \<open>selectedRow\<close> is the \<^verbatim>\<open>category\<close> field of the selected
  row of the list box, if a row is selected.\<close>

definition moveSelectedCategory ::
  "printer \<Rightarrow> bool \<Rightarrow> string option \<Rightarrow> int \<Rightarrow> prefs \<Rightarrow> prefs" where
  "moveSelectedCategory stringify write_ok selectedRow delta st =
     (case selectedRow of
        None \<Rightarrow> st
      | Some categoryName \<Rightarrow>
          (case map_of (categories st) categoryName of
             None \<Rightarrow> st
           | Some currentCategory \<Rightarrow>
               if rank currentCategory = None then st
               else
                 let m = categories st;
                     ranked = rankedCategories m;
                     currentIndex = findIndex (\<lambda>i. name (value_at m i) = categoryName) ranked;
                     newIndex = currentIndex + delta
                 in if currentIndex < 0 \<or> newIndex < 0 \<or> newIndex \<ge> int (length ranked) then st
                    else
                      let current = nat (findIndex (\<lambda>kv. fst kv = categoryName) m);
                          target = ranked ! nat newIndex;
                          tempRank = rank currentCategory;
                          m1 = set_rank current (rank (value_at m target)) m;
                          m2 = set_rank target tempRank m1
                      in saveCategoriesToFile stringify write_ok (st\<lparr>categories := m2\<rparr>)))"

text \<open>The \<^verbatim>\<open>clicked\<close> handler of a row's close button, as far as the store goes:
  \<^verbatim>\<open>categories.delete(category.name)\<close>, the ranks recalculated, the file saved.\<close>

definition recalculate_ranks :: "categories \<Rightarrow> categories" where
  "recalculate_ranks m =
     fold (\<lambda>(cat, index) m'. set_rank cat (Some (int index + 1)) m')
       (zip (rankedCategories m) [0 ..< length (rankedCategories m)]) m"

definition closeButton_clicked :: "printer \<Rightarrow> bool \<Rightarrow> string \<Rightarrow> prefs \<Rightarrow> prefs" where
  "closeButton_clicked stringify write_ok categoryName st =
     saveCategoriesToFile stringify write_ok
       (st\<lparr>categories := recalculate_ranks (Map_delete (categories st) categoryName)\<rparr>)"

text \<open>
  The \<^verbatim>\<open>clicked\<close> handler of the add button reads from the widgets: the selected rows of
  the applications list (\<^verbatim>\<open>id\<close>, \<^verbatim>\<open>name\<close>, \<^verbatim>\<open>selectionRank\<close>), the trimmed text of the entry,
  the selected row of the categories list and the label of the button. The icon files it
  copies and removes are not part of the store.
\<close>

record add_click =
  selectedRows :: "app list"
  entry_text_trimmed :: string
  selected_category :: "string option"
  button_label :: string

definition addButton_clicked :: "printer \<Rightarrow> bool \<Rightarrow> add_click \<Rightarrow> prefs \<Rightarrow> prefs" where
  "addButton_clicked stringify write_ok ui st =
     (let apps' = sort_key app_rank (selectedRows ui);
          isUpdate = (button_label ui = ''Update Category'' \<and> selected_category ui \<noteq> None);
          oldCategoryName = (if isUpdate then the (selected_category ui) else []);
          insertPosition =
            (if isUpdate then indexOf (map fst (categories st)) oldCategoryName else - 1);
          newRank =
            (if isUpdate
             then (case map_of (categories st) oldCategoryName of
                     None \<Rightarrow> Some 1
                   | Some oldCategory \<Rightarrow>
                       (case rank oldCategory of None \<Rightarrow> Some 1 | Some r \<Rightarrow> Some r))
             else Some (fold max (List.map_filter (\<lambda>(k, cat). rank cat) (categories st)) 0 + 1));
          newCategory = \<lparr>name = entry_text_trimmed ui, rank = newRank, apps = apps'\<rparr>;
          m = (if insertPosition \<ge> 0
               then new_Map (take (nat insertPosition) (categories st)
                             @ [(name newCategory, newCategory)]
                             @ drop (Suc (nat insertPosition)) (categories st))
               else Map_set (categories st) (name newCategory) newCategory)
      in saveCategoriesToFile stringify write_ok (st\<lparr>categories := m\<rparr>))"

text \<open>Rank density: the ranks that are not \<^verbatim>\<open>null\<close> are \<open>1, \<dots>, N\<close>, each once.\<close>

definition ranked_ranks :: "categories \<Rightarrow> int list" where
  "ranked_ranks m = List.map_filter (\<lambda>(k, cat). rank cat) m"

definition dense_ranks :: "categories \<Rightarrow> bool" where
  "dense_ranks m = (sort (ranked_ranks m) = [1 .. int (length (ranked_ranks m))])"

text \<open>The store of the scenarios of the specification, and the editor that holds it.\<close>

definition Work :: category where
  "Work = \<lparr>name = ''Work'', rank = Some 1,
           apps = [\<lparr>app_id = ''a.desktop'', app_name = ''A'', app_rank = 1\<rparr>]\<rparr>"

definition Play :: category where
  "Play = \<lparr>name = ''Play'', rank = Some 2, apps = []\<rparr>"

definition editor :: "categories \<Rightarrow> prefs" where
  "editor m = \<lparr>extension_path = ''/e'', categories = m, effects = []\<rparr>"

text \<open>
  What claim C8 asks of one category: \<open>c'\<close> is \<open>c\<close> pruned when it has the name and rank of
  \<open>c\<close> and, if every entry of \<open>c\<close> passes the test, the entries of \<open>c\<close>; otherwise the
  entries of \<open>c\<close> that pass the test, in rank order, with the ranks \<open>1, \<dots>, M\<close>.
\<close>

definition passes :: "(string \<Rightarrow> bool) \<Rightarrow> app \<Rightarrow> bool" where
  "passes installed a = installed (desktopId_of (app_id a))"

definition entry_of :: "app \<Rightarrow> string \<times> string" where
  "entry_of a = (app_id a, app_name a)"

definition pruned :: "(string \<Rightarrow> bool) \<Rightarrow> category \<Rightarrow> category \<Rightarrow> bool" where
  "pruned installed c c' =
     (name c' = name c \<and> rank c' = rank c \<and>
      (if list_all (passes installed) (apps c) then apps c' = apps c
       else map entry_of (apps c') =
              map entry_of (sort_key app_rank (filter (passes installed) (apps c)))
          \<and> map app_rank (apps c') =
              [1 .. int (length (filter (passes installed) (apps c)))]))"

text \<open>A click on the add button: no category row selected, the name \<^verbatim>\<open>Work\<close> typed, one
  application selected.\<close>

definition add_Work_again :: add_click where
  "add_Work_again =
     \<lparr>selectedRows = [\<lparr>app_id = ''b.desktop'', app_name = ''B'', app_rank = 1\<rparr>],
      entry_text_trimmed = ''Work'', selected_category = None,
      button_label = ''Add Category''\<rparr>"

text \<open>A click on the add button with a name that no category has yet.\<close>

definition add_Games :: add_click where
  "add_Games =
     \<lparr>selectedRows = [\<lparr>app_id = ''b.desktop'', app_name = ''B'', app_rank = 1\<rparr>],
      entry_text_trimmed = ''Games'', selected_category = None,
      button_label = ''Add Category''\<rparr>"

section \<open>A reference \<^verbatim>\<open>JSON.stringify\<close> and \<^verbatim>\<open>JSON.parse\<close>\<close>

text \<open>
  The built-ins, for the values the two files hold, as far as the concrete runs of this
  theory need them: \<open>JSON_stringify\<close> writes what \<^verbatim>\<open>JSON.stringify\<close> writes for a value of
  type \<open>json\<close> (no indentation; a string quoted with the escapes of \<^verbatim>\<open>QuoteJSONString\<close>), and
  \<open>JSON_parse\<close> reads JSON text with integer numbers. Numbers with a fraction or an exponent
  and \<^verbatim>\<open>\u\<close> escapes of surrogates are outside of it (\<open>None\<close>, although \<^verbatim>\<open>JSON.parse\<close> reads
  them). The theorems below that hold for every parser do not depend on it.
\<close>

definition quotation_mark :: char where
  "quotation_mark = CHR 0x22"

definition backslash :: char where
  "backslash = CHR 0x5C"

definition digit_char :: "nat \<Rightarrow> char" where
  "digit_char d = char_of (48 + d)"

definition hex_char :: "nat \<Rightarrow> char" where
  "hex_char d = (if d < 10 then char_of (48 + d) else char_of (87 + d))"

fun show_nat :: "nat \<Rightarrow> string" where
  "show_nat n = (if n < 10 then [digit_char n] else show_nat (n div 10) @ [digit_char (n mod 10)])"

definition show_int :: "int \<Rightarrow> string" where
  "show_int i = (if i < 0 then CHR ''-'' # show_nat (nat (- i)) else show_nat (nat i))"

definition quote_char :: "char \<Rightarrow> string" where
  "quote_char c =
     (if c = quotation_mark then [backslash, quotation_mark]
      else if c = backslash then [backslash, backslash]
      else if c = CHR 0x08 then [backslash, CHR ''b'']
      else if c = CHR 0x0C then [backslash, CHR ''f'']
      else if c = CHR 0x0A then [backslash, CHR ''n'']
      else if c = CHR 0x0D then [backslash, CHR ''r'']
      else if c = CHR 0x09 then [backslash, CHR ''t'']
      else if (of_char c :: nat) < 32
      then [backslash, CHR ''u'', CHR ''0'', CHR ''0'',
            hex_char (of_char c div 16), hex_char (of_char c mod 16)]
      else [c])"

definition quote :: "string \<Rightarrow> string" where
  "quote s = quotation_mark # concat (map quote_char s) @ [quotation_mark]"

fun JSON_stringify :: printer where
  "JSON_stringify JNull = ''null''"
| "JSON_stringify (JBool b) = (if b then ''true'' else ''false'')"
| "JSON_stringify (JNum i) = show_int i"
| "JSON_stringify (JStr s) = quote s"
| "JSON_stringify (JArr vs) = ''['' @ join '','' (map JSON_stringify vs) @ '']''"
| "JSON_stringify (JObj kvs) =
     ''{'' @ join '','' (map (\<lambda>(k, v). quote k @ '':'' @ JSON_stringify v) kvs) @ ''}''"

text \<open>The parser. White space between tokens is space, TAB, LF and CR.\<close>

definition is_json_ws :: "char \<Rightarrow> bool" where
  "is_json_ws c = (c \<in> set [CHR 0x20, CHR 0x09, CHR 0x0A, CHR 0x0D])"

definition skip_ws :: "string \<Rightarrow> string" where
  "skip_ws s = dropWhile is_json_ws s"

definition digit_val :: "char \<Rightarrow> nat option" where
  "digit_val c =
     (let n = of_char c :: nat in if 48 \<le> n \<and> n < 58 then Some (n - 48) else None)"

definition hex_val :: "char \<Rightarrow> nat option" where
  "hex_val c =
     (let n = of_char c :: nat in
      if 48 \<le> n \<and> n < 58 then Some (n - 48)
      else if 97 \<le> n \<and> n < 103 then Some (n - 87)
      else if 65 \<le> n \<and> n < 71 then Some (n - 55)
      else None)"

text \<open>The UTF-8 bytes of a code point of the basic plane that is no surrogate.\<close>

definition utf8 :: "nat \<Rightarrow> string option" where
  "utf8 u =
     (if u < 128 then Some [char_of u]
      else if u < 2048 then Some [char_of (192 + u div 64), char_of (128 + u mod 64)]
      else if 55296 \<le> u \<and> u < 57344 then None
      else Some [char_of (224 + u div 4096), char_of (128 + (u div 64) mod 64),
                 char_of (128 + u mod 64)])"

definition unescape :: "char \<Rightarrow> char option" where
  "unescape e =
     (if e = quotation_mark then Some quotation_mark
      else if e = backslash then Some backslash
      else if e = CHR ''/'' then Some CHR ''/''
      else if e = CHR ''b'' then Some (CHR 0x08)
      else if e = CHR ''f'' then Some (CHR 0x0C)
      else if e = CHR ''n'' then Some (CHR 0x0A)
      else if e = CHR ''r'' then Some (CHR 0x0D)
      else if e = CHR ''t'' then Some (CHR 0x09)
      else None)"

definition unicode_escape :: "char \<Rightarrow> char \<Rightarrow> char \<Rightarrow> char \<Rightarrow> string option" where
  "unicode_escape a b c d =
     (case (hex_val a, hex_val b, hex_val c, hex_val d) of
        (Some h3, Some h2, Some h1, Some h0) \<Rightarrow> utf8 (((h3 * 16 + h2) * 16 + h1) * 16 + h0)
      | _ \<Rightarrow> None)"

text \<open>The characters of a string after its opening quotation mark: the string and the
  text after the closing quotation mark.\<close>

fun parse_chars :: "string \<Rightarrow> (string \<times> string) option" where
  "parse_chars [] = None"
| "parse_chars (c # cs) =
     (if c = quotation_mark then Some ([], cs)
      else if c = backslash then
        (case cs of
           [] \<Rightarrow> None
         | e # cs' \<Rightarrow>
             if e = CHR ''u'' then
               (case cs' of
                  a # b # c' # d # cs'' \<Rightarrow>
                    (case unicode_escape a b c' d of
                       None \<Rightarrow> None
                     | Some bytes \<Rightarrow>
                         (case parse_chars cs'' of
                            None \<Rightarrow> None
                          | Some (s, rest) \<Rightarrow> Some (bytes @ s, rest)))
                | _ \<Rightarrow> None)
             else
               (case unescape e of
                  None \<Rightarrow> None
                | Some ch \<Rightarrow>
                    (case parse_chars cs' of
                       None \<Rightarrow> None
                     | Some (s, rest) \<Rightarrow> Some (ch # s, rest))))
      else if (of_char c :: nat) < 32 then None
      else (case parse_chars cs of
              None \<Rightarrow> None
            | Some (s, rest) \<Rightarrow> Some (c # s, rest)))"

text \<open>The digits at the head of a text, read onto \<open>acc\<close>.\<close>

fun read_digits :: "nat \<Rightarrow> string \<Rightarrow> nat \<times> string" where
  "read_digits acc [] = (acc, [])"
| "read_digits acc (c # cs) =
     (case digit_val c of
        None \<Rightarrow> (acc, c # cs)
      | Some d \<Rightarrow> read_digits (acc * 10 + d) cs)"

text \<open>The integer part of a number: \<^verbatim>\<open>0\<close>, or a digit that is not \<^verbatim>\<open>0\<close> and more digits.\<close>

definition parse_nat :: "string \<Rightarrow> (nat \<times> string) option" where
  "parse_nat s =
     (case s of
        [] \<Rightarrow> None
      | c # cs \<Rightarrow>
          (case digit_val c of
             None \<Rightarrow> None
           | Some d \<Rightarrow> if d = 0 then Some (0, cs) else Some (read_digits d cs)))"

definition starts_fraction_or_exponent :: "string \<Rightarrow> bool" where
  "starts_fraction_or_exponent s =
     (case s of [] \<Rightarrow> False | c # cs \<Rightarrow> c \<in> set [CHR ''.'', CHR ''e'', CHR ''E''])"

definition parse_number :: "string \<Rightarrow> (json \<times> string) option" where
  "parse_number s =
     (case s of
        [] \<Rightarrow> None
      | c # cs \<Rightarrow>
          (case (if c = CHR ''-'' then parse_nat cs else parse_nat s) of
             None \<Rightarrow> None
           | Some (n, rest) \<Rightarrow>
               if starts_fraction_or_exponent rest then None
               else Some (JNum (if c = CHR ''-'' then - int n else int n), rest)))"

definition parse_literal :: "string \<Rightarrow> json \<Rightarrow> string \<Rightarrow> (json \<times> string) option" where
  "parse_literal word v s =
     (if take (length word) s = word then Some (v, drop (length word) s) else None)"

text \<open>
  Values, the elements of an array after \<^verbatim>\<open>[\<close>, and the members of an object after \<^verbatim>\<open>{\<close>. The
  first argument bounds the depth of the recursion; \<open>JSON_parse\<close> gives more than any text
  of its length needs. A key that comes twice keeps its first place and its last value.
\<close>

fun parse_value :: "nat \<Rightarrow> string \<Rightarrow> (json \<times> string) option"
and parse_elements :: "nat \<Rightarrow> string \<Rightarrow> (json list \<times> string) option"
and parse_members :: "nat \<Rightarrow> string \<Rightarrow> ((string \<times> json) list \<times> string) option"
where
  "parse_value 0 s = None"
| "parse_value (Suc n) s =
     (case s of
        [] \<Rightarrow> None
      | c # cs \<Rightarrow>
          if c = CHR ''{'' then
            (case skip_ws cs of
               [] \<Rightarrow> None
             | c' # cs' \<Rightarrow>
                 if c' = CHR ''}'' then Some (JObj [], cs')
                 else (case parse_members n (c' # cs') of
                         None \<Rightarrow> None
                       | Some (kvs, rest) \<Rightarrow> Some (JObj (new_Map kvs), rest)))
          else if c = CHR ''['' then
            (case skip_ws cs of
               [] \<Rightarrow> None
             | c' # cs' \<Rightarrow>
                 if c' = CHR '']'' then Some (JArr [], cs')
                 else (case parse_elements n (c' # cs') of
                         None \<Rightarrow> None
                       | Some (vs, rest) \<Rightarrow> Some (JArr vs, rest)))
          else if c = quotation_mark then
            (case parse_chars cs of None \<Rightarrow> None | Some (str, rest) \<Rightarrow> Some (JStr str, rest))
          else if c = CHR ''t'' then parse_literal ''true'' (JBool True) s
          else if c = CHR ''f'' then parse_literal ''false'' (JBool False) s
          else if c = CHR ''n'' then parse_literal ''null'' JNull s
          else parse_number s)"
| "parse_elements 0 s = None"
| "parse_elements (Suc n) s =
     (case parse_value n s of
        None \<Rightarrow> None
      | Some (v, rest) \<Rightarrow>
          (case skip_ws rest of
             [] \<Rightarrow> None
           | c # cs \<Rightarrow>
               if c = CHR '']'' then Some ([v], cs)
               else if c = CHR '','' then
                 (case parse_elements n (skip_ws cs) of
                    None \<Rightarrow> None
                  | Some (vs, rest') \<Rightarrow> Some (v # vs, rest'))
               else None))"
| "parse_members 0 s = None"
| "parse_members (Suc n) s =
     (case s of
        [] \<Rightarrow> None
      | q # cs \<Rightarrow>
          if q \<noteq> quotation_mark then None
          else
            (case parse_chars cs of
               None \<Rightarrow> None
             | Some (key, rest) \<Rightarrow>
                 (case skip_ws rest of
                    [] \<Rightarrow> None
                  | c # cs' \<Rightarrow>
                      if c \<noteq> CHR '':'' then None
                      else
                        (case parse_value n (skip_ws cs') of
                           None \<Rightarrow> None
                         | Some (v, rest') \<Rightarrow>
                             (case skip_ws rest' of
                                [] \<Rightarrow> None
                              | c' # cs'' \<Rightarrow>
                                  if c' = CHR ''}'' then Some ([(key, v)], cs'')
                                  else if c' = CHR '','' then
                                    (case parse_members n (skip_ws cs'') of
                                       None \<Rightarrow> None
                                     | Some (kvs, rest'') \<Rightarrow> Some ((key, v) # kvs, rest''))
                                  else None)))))"

definition JSON_parse :: parser where
  "JSON_parse s =
     (case parse_value (Suc (length s)) (skip_ws s) of
        None \<Rightarrow> None
      | Some (v, rest) \<Rightarrow> if skip_ws rest = [] then Some v else None)"

text \<open>Notions for the correctness of the reference pair: a text that does not go on with a
  digit; a text that is empty or goes on with \<^verbatim>\<open>,\<close> \<^verbatim>\<open>]\<close> or \<^verbatim>\<open>}\<close>; and a value in which no
  object has a key twice (every value that \<^verbatim>\<open>JSON.parse\<close> returns is one).\<close>

definition no_digit :: "string \<Rightarrow> bool" where
  "no_digit rest = (case rest of [] \<Rightarrow> True | c # cs \<Rightarrow> digit_val c = None)"

definition delimited :: "string \<Rightarrow> bool" where
  "delimited rest =
     (case rest of [] \<Rightarrow> True | c # cs \<Rightarrow> c \<in> set [CHR '','', CHR '']'', CHR ''}''])"

fun unique_keys :: "json \<Rightarrow> bool" where
  "unique_keys (JArr vs) = list_all unique_keys vs"
| "unique_keys (JObj kvs) = (distinct (map fst kvs) \<and> list_all (\<lambda>kv. unique_keys (snd kv)) kvs)"
| "unique_keys _ = True"

definition member_text :: "string \<times> json \<Rightarrow> string" where
  "member_text kv = quote (fst kv) @ '':'' @ JSON_stringify (snd kv)"

section \<open>Files with a line that is not JSON\<close>

text \<open>What claim C2 says \<open>loadRecentsFromDisk\<close> keeps of the lines of a file: the values of the
  lines that parse, those of them that are objects with a string \<^verbatim>\<open>id\<close>, in file order.\<close>

definition well_formed_records :: "parser \<Rightarrow> string list \<Rightarrow> jobj list" where
  "well_formed_records parse lines =
     map the_obj (filter has_string_id (List.map_filter parse lines))"

text \<open>What the loop of \<open>loadCategories\<close> has stored when it has read the given lines, each of
  them a category of the schema.\<close>

definition stored :: "parser \<Rightarrow> string list \<Rightarrow> categories" where
  "stored parse lines =
     fold (\<lambda>line m. case parse_category parse line of
                       Category c \<Rightarrow> Map_set m (name c) c
                     | _ \<Rightarrow> m) lines []"

definition is_category_line :: "parser \<Rightarrow> string \<Rightarrow> bool" where
  "is_category_line parse line =
     (case parse_category parse line of Category c \<Rightarrow> True | _ \<Rightarrow> False)"

definition recents_file_with_bad_line :: string where
  \<open>recents_file_with_bad_line =
     ''{"id":"a.desktop","ts":1}'' @ [newline] @ ''not json'' @ [newline]\<close>

definition categories_file_with_bad_line :: string where
  \<open>categories_file_with_bad_line =
     ''{"name":"Play","rank":2,"apps":[]}'' @ [newline] @ ''not json'' @ [newline]\<close>

section \<open>Recents: what a launch does to the list\<close>

lemma take_filter_take:
  "distinct xs \<Longrightarrow>
   take n (filter (\<lambda>y. y \<noteq> x) (take (Suc n) xs)) = take n (filter (\<lambda>y. y \<noteq> x) xs)"
proof (induction xs arbitrary: n)
  case Nil
  then show ?case by simp
next
  case (Cons a xs)
  show ?case
  proof (cases "a = x")
    case True
    with Cons.prems have "x \<notin> set xs" by simp
    then have "filter (\<lambda>y. y \<noteq> x) xs = xs"
      by (auto simp: filter_id_conv)
    moreover from \<open>x \<notin> set xs\<close> have "filter (\<lambda>y. y \<noteq> x) (take n xs) = take n xs"
      by (auto simp: filter_id_conv dest: in_set_takeD)
    ultimately show ?thesis using True by simp
  next
    case False
    show ?thesis
    proof (cases n)
      case 0
      then show ?thesis by simp
    next
      case (Suc m)
      with Cons False show ?thesis by simp
    qed
  qed
qed

lemma bumpRecent_recents:
  "valid_desktop_id d \<Longrightarrow>
   recents (bumpRecent pr w now d st) =
     take MAX_RECENTS ([(''id'', JStr d), (''ts'', JNum now)] #
        filter (\<lambda>r. recent_id r \<noteq> Some (JStr d)) (recents st))"
  by (simp add: bumpRecent_def valid_desktop_id_def saveRecentsToDisk_def Let_def)

lemma map_recent_id_filter:
  "map recent_id (filter (\<lambda>r. recent_id r \<noteq> x) rs) = removeAll x (map recent_id rs)"
  by (induction rs) auto

lemma removeAll_filter: "removeAll x xs = filter (\<lambda>y. y \<noteq> x) xs"
  by (induction xs) auto

lemma bumpRecent_ids:
  assumes "valid_desktop_id d"
  shows "map recent_id (recents (bumpRecent pr w now d st)) =
     take MAX_RECENTS (move_to_front (Some (JStr d)) (map recent_id (recents st)))"
proof -
  have "recent_id [(''id'', JStr d), (''ts'', JNum now)] = Some (JStr d)"
    by (simp add: recent_id_def)
  then show ?thesis using assms
    by (simp add: bumpRecent_recents take_map[symmetric] map_recent_id_filter move_to_front_def)
qed

lemma distinct_move_to_front: "distinct xs \<Longrightarrow> distinct (move_to_front x xs)"
  by (simp add: move_to_front_def distinct_removeAll)

lemma distinct_most_recent_first: "distinct old \<Longrightarrow> distinct (most_recent_first ds old)"
  unfolding most_recent_first_def
  by (induction ds arbitrary: old) (simp_all add: distinct_move_to_front)

lemma take_move_to_front:
  assumes d: "distinct xs" and n: "0 < n"
  shows "take n (move_to_front x (take n xs)) = take n (move_to_front x xs)"
proof -
  from n obtain m where m: "n = Suc m" by (cases n) auto
  show ?thesis
    using take_filter_take[OF d, of m x] by (simp add: m move_to_front_def removeAll_filter)
qed

lemma take_most_recent_first:
  "distinct xs \<Longrightarrow> 0 < n \<Longrightarrow>
   take n (most_recent_first ds (take n xs)) = take n (most_recent_first ds xs)"
proof (induction ds arbitrary: xs)
  case Nil
  then show ?case by (simp add: most_recent_first_def)
next
  case (Cons d ds)
  have step: "most_recent_first (d # ds) ys = most_recent_first ds (move_to_front d ys)" for ys
    by (simp add: most_recent_first_def)
  have d1: "distinct (move_to_front d (take n xs))"
    using Cons.prems(1) by (simp add: distinct_move_to_front)
  have d2: "distinct (move_to_front d xs)"
    using Cons.prems(1) by (simp add: distinct_move_to_front)
  have "take n (most_recent_first ds (move_to_front d (take n xs)))
      = take n (most_recent_first ds (take n (move_to_front d (take n xs))))"
    using Cons.IH[OF d1 Cons.prems(2)] by simp
  also have "\<dots> = take n (most_recent_first ds (take n (move_to_front d xs)))"
    using take_move_to_front[OF Cons.prems] by simp
  also have "\<dots> = take n (most_recent_first ds (move_to_front d xs))"
    using Cons.IH[OF d2 Cons.prems(2)] .
  finally show ?case by (simp add: step)
qed

lemma bumps_ids:
  assumes "distinct (map recent_id (recents st))"
      and "length (recents st) \<le> MAX_RECENTS"
  shows "map recent_id (recents (bumps pr calls st)) =
           take MAX_RECENTS (most_recent_first (map (\<lambda>d. Some (JStr d)) (bumped calls))
                               (map recent_id (recents st)))"
  using assms
proof (induction calls arbitrary: st)
  case Nil
  then show ?case by (simp add: most_recent_first_def bumped_def)
next
  case (Cons c calls)
  obtain w now d where c: "c = (w, now, d)" by (cases c)
  show ?case
  proof (cases "valid_desktop_id d")
    case False
    then have same: "bumpRecent pr w now d st = st"
      by (simp add: bumpRecent_def valid_desktop_id_def)
    have "bumped (c # calls) = bumped calls"
      using False by (simp add: bumped_def c)
    then show ?thesis
      using Cons.IH[OF Cons.prems] same by (simp add: c)
  next
    case v: True
    let ?st = "bumpRecent pr w now d st"
    let ?ds = "map (\<lambda>d. Some (JStr d)) (bumped calls)"
    have ids: "map recent_id (recents ?st) =
                 take MAX_RECENTS (move_to_front (Some (JStr d)) (map recent_id (recents st)))"
      using bumpRecent_ids[OF v] .
    have d': "distinct (map recent_id (recents ?st))"
      unfolding ids using Cons.prems(1) by (simp add: distinct_move_to_front)
    have l': "length (recents ?st) \<le> MAX_RECENTS"
      by (simp add: bumpRecent_recents[OF v])
    have b: "bumped ((w, now, d) # calls) = d # bumped calls"
      using v by (simp add: bumped_def)
    have "map recent_id (recents (bumps pr calls ?st)) =
       take MAX_RECENTS (most_recent_first ?ds (map recent_id (recents ?st)))"
      using Cons.IH[OF d' l'] .
    also have "\<dots> = take MAX_RECENTS
         (most_recent_first ?ds (move_to_front (Some (JStr d)) (map recent_id (recents st))))"
      unfolding ids
      by (rule take_most_recent_first)
         (simp_all add: distinct_move_to_front Cons.prems(1) MAX_RECENTS_def)
    finally show ?thesis by (simp add: c b most_recent_first_def)
  qed
qed

lemma hd_most_recent_first: "ds \<noteq> [] \<Longrightarrow> hd (most_recent_first ds old) = last ds"
  unfolding most_recent_first_def
  by (induction ds arbitrary: old) (auto simp: move_to_front_def)

lemma most_recent_first_not_Nil: "ds \<noteq> [] \<Longrightarrow> most_recent_first ds old \<noteq> []"
  unfolding most_recent_first_def
  by (induction ds arbitrary: old rule: rev_induct) (auto simp: move_to_front_def)

text \<open>
  Claim C6, as stated, lets the run of calls start from any list of at most 15 entries and
  bump any ids. A list that holds an id twice (the loader does not remove repeats, so a
  file can supply one) still holds it twice after another id is bumped. And the ids \<^verbatim>\<open>x\<close>
  and \<^verbatim>\<open>y\<close>, which do not end in \<^verbatim>\<open>.desktop\<close>, are not added at all: after \<^verbatim>\<open>bump(x)\<close>,
  \<^verbatim>\<open>bump(y)\<close>, \<^verbatim>\<open>bump(x)\<close> from the empty list the list is empty, not \<^verbatim>\<open>[x, y]\<close>.
\<close>

theorem bump_keeps_foreign_duplicates:
  "length (recents recents_with_repeat) \<le> MAX_RECENTS
   \<and> \<not> distinct (map recent_id
         (recents (bumps (\<lambda>v. []) [(True, 3, ''b.desktop'')] recents_with_repeat)))
   \<and> recents (bumps (\<lambda>v. []) [(True, 1, ''x''), (True, 2, ''y''), (True, 3, ''x'')]
         (enabled ''/e'')) = []"
  by (simp add: recents_with_repeat_def enabled_def MAX_RECENTS_def bumpRecent_def
      endsWith_def recent_id_def saveRecentsToDisk_def)

text \<open>
  Claim C6, amended: after any run of calls of \<open>bumpRecent\<close>, with any ids, started from a
  list of at most 15 entries in which no id occurs twice, the list has at most 15 entries
  and no id occurs twice; its ids are the first 15 of the move-to-front order of the bumped
  ids that are not empty and end in \<^verbatim>\<open>.desktop\<close> (the most recent of them first), and when
  there is such an id, the first entry is the last of them. One call with such an id
  removes the entries of that id, puts the new entry in front and cuts the list to 15.
\<close>

theorem bumps_recents_invariant:
  assumes "length (recents st) \<le> MAX_RECENTS"
      and "distinct (map recent_id (recents st))"
  shows "length (recents (bumps stringify calls st)) \<le> MAX_RECENTS
       \<and> distinct (map recent_id (recents (bumps stringify calls st)))
       \<and> map recent_id (recents (bumps stringify calls st)) =
           take MAX_RECENTS
             (most_recent_first (map (\<lambda>d. Some (JStr d)) (bumped calls))
                (map recent_id (recents st)))
       \<and> (bumped calls \<noteq> [] \<longrightarrow>
            map recent_id (take 1 (recents (bumps stringify calls st))) =
              [Some (JStr (last (bumped calls)))])
       \<and> (valid_desktop_id desktopId \<longrightarrow>
            recents (bumpRecent stringify write_ok now desktopId st') =
              take MAX_RECENTS
                ([(''id'', JStr desktopId), (''ts'', JNum now)] #
                 filter (\<lambda>recent. recent_id recent \<noteq> Some (JStr desktopId)) (recents st')))"
proof -
  let ?ds = "map (\<lambda>d. Some (JStr d)) (bumped calls)"
  let ?m = "most_recent_first ?ds (map recent_id (recents st))"
  have ids: "map recent_id (recents (bumps stringify calls st)) = take MAX_RECENTS ?m"
    using bumps_ids[OF assms(2) assms(1)] .
  have len: "length (recents (bumps stringify calls st)) \<le> MAX_RECENTS"
  proof -
    have "length (map recent_id (recents (bumps stringify calls st))) \<le> MAX_RECENTS"
      unfolding ids by simp
    then show ?thesis by simp
  qed
  have dist: "distinct (map recent_id (recents (bumps stringify calls st)))"
    unfolding ids using assms(2) by (simp add: distinct_most_recent_first)
  have first: "map recent_id (take 1 (recents (bumps stringify calls st))) =
              [Some (JStr (last (bumped calls)))]" if ne: "bumped calls \<noteq> []"
  proof -
    have ds: "?ds \<noteq> []" using ne by simp
    then have h: "hd ?m = last ?ds" by (rule hd_most_recent_first)
    have "?m \<noteq> []" using ds by (rule most_recent_first_not_Nil)
    then obtain x xs where m: "?m = x # xs" by (cases ?m) auto
    have "map recent_id (take 1 (recents (bumps stringify calls st))) =
            take 1 (take MAX_RECENTS ?m)"
      unfolding ids[symmetric] by (simp add: take_map)
    also have "\<dots> = [hd ?m]" unfolding m by (simp add: MAX_RECENTS_def)
    finally show ?thesis using h ne by (simp add: last_map)
  qed
  have one: "recents (bumpRecent stringify write_ok now desktopId st') =
              take MAX_RECENTS
                ([(''id'', JStr desktopId), (''ts'', JNum now)] #
                 filter (\<lambda>recent. recent_id recent \<noteq> Some (JStr desktopId)) (recents st'))"
    if "valid_desktop_id desktopId"
    using that by (rule bumpRecent_recents)
  show ?thesis using len dist ids first one by blast
qed

theorem bumps_recents_invariant_witness:
  "length (recents (enabled ''/e'')) \<le> MAX_RECENTS
   \<and> distinct (map recent_id (recents (enabled ''/e'')))
   \<and> bumped [(True, 1, ''x.desktop''), (True, 2, ''firefox''), (True, 3, ''y.desktop''),
              (True, 4, ''x.desktop'')] = [''x.desktop'', ''y.desktop'', ''x.desktop'']
   \<and> map recent_id (recents (bumps (\<lambda>v. [])
        [(True, 1, ''x.desktop''), (True, 2, ''firefox''), (True, 3, ''y.desktop''),
         (True, 4, ''x.desktop'')]
        (enabled ''/e'')))
      = [Some (JStr ''x.desktop''), Some (JStr ''y.desktop'')]
   \<and> recents (bumpRecent (\<lambda>v. []) True 5 ''a.desktop'' recents_with_repeat)
      = [[(''id'', JStr ''a.desktop''), (''ts'', JNum 5)]]"
  using bumps_recents_invariant[where st = "enabled ''/e''"
      and calls = "[(True, 1, ''x.desktop''), (True, 2, ''firefox''), (True, 3, ''y.desktop''),
        (True, 4, ''x.desktop'')]"
      and stringify = "\<lambda>v. []" and desktopId = "''a.desktop''" and write_ok = True
      and now = 5 and st' = recents_with_repeat]
  by (simp add: enabled_def MAX_RECENTS_def valid_desktop_id_def endsWith_def bumped_def
      most_recent_first_def move_to_front_def recents_with_repeat_def recent_id_def)

text \<open>
  Claim C10: \<open>bumpRecent\<close> called with the empty string, or with an id that does not end in
  \<^verbatim>\<open>.desktop\<close>, returns at once: the list, and everything else of the state, is as before;
  in particular the trace has no new write, log entry or notification.
\<close>

theorem bumpRecent_ignores_other_ids:
  "desktopId = [] \<or> \<not> endsWith desktopId ''.desktop'' \<Longrightarrow>
   bumpRecent stringify write_ok now desktopId st = st"
  by (simp add: bumpRecent_def)

theorem bumpRecent_ignores_other_ids_witness:
  "\<not> endsWith ''firefox'' ''.desktop''
   \<and> bumpRecent (\<lambda>v. []) True 7 ''firefox'' recents_with_repeat = recents_with_repeat
   \<and> bumpRecent (\<lambda>v. []) True 7 [] recents_with_repeat = recents_with_repeat"
  using bumpRecent_ignores_other_ids[of "''firefox''" "\<lambda>v. []" True 7 recents_with_repeat]
    bumpRecent_ignores_other_ids[of "[]" "\<lambda>v. []" True 7 recents_with_repeat]
  by (simp add: endsWith_def)

section \<open>The categories file watcher\<close>

lemma paths_differ: "recentsFilePath base \<noteq> categoriesFilePath base"
  by (simp add: recentsFilePath_def categoriesFilePath_def)

lemma bumpRecent_fields:
  "basePath (bumpRecent pr w now d st) = basePath st
   \<and> sources (bumpRecent pr w now d st) = sources st
   \<and> reloadTimeoutId (bumpRecent pr w now d st) = reloadTimeoutId st
   \<and> next_source (bumpRecent pr w now d st) = next_source st
   \<and> clock (bumpRecent pr w now d st) = clock st"
  by (simp add: bumpRecent_def saveRecentsToDisk_def Let_def)

lemma bumpRecent_written:
  "set (written_paths (drop (length (trace st)) (trace (bumpRecent pr w now d st))))
     \<subseteq> {recentsFilePath (basePath st)}"
  by (simp add: bumpRecent_def saveRecentsToDisk_def Let_def)

lemma fold_notify_other:
  "\<forall>p \<in> set ps. p \<noteq> categoriesFilePath (basePath st) \<Longrightarrow>
   fold (notify_written evs) ps st = st"
  by (induction ps) (simp_all add: notify_written_def)

text \<open>
  Claim C9: the only file the popup writes is \<^verbatim>\<open>recents.jsonl\<close> (in \<open>saveRecentsToDisk\<close>, called
  by \<open>bumpRecent\<close>), and the monitor of \<^verbatim>\<open>categories.jsonl\<close> does not report it. So a launch
  with the change notifications of its own write is the launch alone: the pending
  timeouts and \<open>reloadTimeoutId\<close> are as before, and no reload has run. (The preferences
  editor, which does write \<^verbatim>\<open>categories.jsonl\<close>, sets up no monitor at all.)
\<close>

theorem own_save_keeps_watcher_idle:
  "launch stringify write_ok now desktopId eventTypes st =
     bumpRecent stringify write_ok now desktopId st
   \<and> sources (launch stringify write_ok now desktopId eventTypes st) = sources st
   \<and> reloadTimeoutId (launch stringify write_ok now desktopId eventTypes st) =
       reloadTimeoutId st
   \<and> reloads (launch stringify write_ok now desktopId eventTypes st) = reloads st"
proof -
  let ?st1 = "bumpRecent stringify write_ok now desktopId st"
  have "\<forall>p \<in> set (written_paths (drop (length (trace st)) (trace ?st1))).
          p \<noteq> categoriesFilePath (basePath ?st1)"
    using bumpRecent_written[of st stringify write_ok now desktopId]
      paths_differ[of "basePath st"]
    by (auto simp: bumpRecent_fields)
  then have eq: "launch stringify write_ok now desktopId eventTypes st = ?st1"
    unfolding launch_def Let_def by (rule fold_notify_other)
  have "reloads ?st1 = reloads st"
    by (simp add: reloads_def bumpRecent_def saveRecentsToDisk_def Let_def)
  then show ?thesis using eq by (simp add: bumpRecent_fields)
qed

text \<open>
  Claim C4 fails on the code. The three handlers keep their timeout in the one variable
  \<open>reloadTimeoutId\<close>: an \<^verbatim>\<open>installed-changed\<close> signal that arrives 100 ms after a change of the
  categories file removes the pending reload and arms the refresh of the application list
  in its place. After the burst only that refresh has run; the reload has run zero times
  and nothing is pending that would run it.
\<close>

theorem categories_reload_lost:
  "run [CategoriesFileChanged CHANGES_DONE_HINT, Elapse 100, InstalledChanged,
        Elapse 500, Elapse 100000] (enabled ''/e'')
   = (enabled ''/e'')\<lparr>next_source := 2, clock := 100600, trace := [RefreshedApps]\<rparr>
   \<and> reloads (run [CategoriesFileChanged CHANGES_DONE_HINT, Elapse 100, InstalledChanged,
        Elapse 500, Elapse 100000] (enabled ''/e'')) = 0"
  by (simp add: run_def enabled_def reloads_def on_categories_file_changed_def rearm_def
      on_installed_changed_def timeout_add_def source_remove_def elapse_def
      RELOAD_DELAY_MS_def Let_def)

section \<open>Pruning uninstalled applications\<close>

lemma Map_set_fresh_prefix:
  "k \<notin> fst ` set pre \<Longrightarrow> Map_set (pre @ (k, c) # es) k c' = pre @ (k, c') # es"
  by (induction pre) auto

lemma cleanup_loop_map:
  "distinct (map fst (pre @ es)) \<Longrightarrow>
   cleanup_loop installed es (pre @ es) ch =
     (pre @ map (\<lambda>(k, c). (k, fst (cleanup_category installed c))) es,
      ch \<or> list_ex (\<lambda>(k, c). snd (cleanup_category installed c)) es)"
proof (induction es arbitrary: pre ch)
  case Nil
  then show ?case by simp
next
  case (Cons e es)
  obtain k c where e: "e = (k, c)" by (cases e)
  obtain c' b where cc: "cleanup_category installed c = (c', b)" by (cases "cleanup_category installed c")
  have fresh: "k \<notin> fst ` set pre" using Cons.prems e by auto
  show ?case
  proof (cases b)
    case True
    have d: "distinct (map fst ((pre @ [(k, c')]) @ es))" using Cons.prems e by auto
    have "cleanup_loop installed (e # es) (pre @ e # es) ch
        = cleanup_loop installed es ((pre @ [(k, c')]) @ es) True"
      using cc True e Map_set_fresh_prefix[OF fresh] by simp
    also have "\<dots> = ((pre @ [(k, c')]) @ map (\<lambda>(k, c). (k, fst (cleanup_category installed c))) es, True)"
      using Cons.IH[OF d] by simp
    finally show ?thesis using cc True e by simp
  next
    case False
    have unchanged: "c' = c" using cc False
      by (auto simp: cleanup_category_def Let_def split: if_splits)
    have d: "distinct (map fst ((pre @ [(k, c)]) @ es))" using Cons.prems e by auto
    have "cleanup_loop installed (e # es) (pre @ e # es) ch
        = cleanup_loop installed es ((pre @ [(k, c)]) @ es) ch"
      using cc False e by simp
    also have "\<dots> = ((pre @ [(k, c)]) @ map (\<lambda>(k, c). (k, fst (cleanup_category installed c))) es,
          ch \<or> list_ex (\<lambda>(k, c). snd (cleanup_category installed c)) es)"
      using Cons.IH[OF d] by simp
    finally show ?thesis using cc False e unchanged by simp
  qed
qed

lemma filter_length_eq_iff: "length (filter P xs) = length xs \<longleftrightarrow> list_all P xs"
proof (induction xs)
  case Nil
  then show ?case by simp
next
  case (Cons x xs)
  have "length (filter P xs) \<le> length xs" by (rule length_filter_le)
  then have "length (filter P xs) \<noteq> Suc (length xs)" by arith
  then show ?case using Cons by auto
qed

lemma renumber_entries: "map entry_of (renumber xs) = map entry_of xs"
  by (rule nth_equalityI) (simp_all add: renumber_def entry_of_def)

lemma upto_as_upt: "[1 .. int n] = map (\<lambda>i. int i + 1) [0 ..< n]"
proof (induction n)
  case 0 then show ?case by simp
next
  case (Suc n)
  have "[1 .. int n + 1] = [1 .. int n + 1 - 1] @ [int n + 1]"
    by (rule upto_rec2) simp
  then have "[1 .. int (Suc n)] = [1 .. int n] @ [int n + 1]"
    by (simp add: add.commute)
  then show ?case using Suc by simp
qed

lemma renumber_ranks: "map app_rank (renumber xs) = [1 .. int (length xs)]"
  unfolding upto_as_upt by (rule nth_equalityI) (simp_all add: renumber_def)

lemma cleanup_category_pruned: "pruned installed c (fst (cleanup_category installed c))"
  by (auto simp: pruned_def cleanup_category_def Let_def filter_length_eq_iff passes_def[abs_def]
       renumber_entries renumber_ranks filter_id_conv list_all_iff)

lemma cleanup_category_changed:
  "snd (cleanup_category installed c) \<longleftrightarrow> \<not> list_all (passes installed) (apps c)"
  by (auto simp: cleanup_category_def Let_def filter_length_eq_iff passes_def[abs_def])



text \<open>
  Claim C8: in a store whose keys are distinct (as the keys of a \<^verbatim>\<open>Map\<close> are),
  \<open>cleanupCategories\<close> keeps the keys and their order; every category keeps its name and
  rank; a category all of whose entries pass the test (of the entry's id, with \<^verbatim>\<open>.desktop\<close>
  appended when it does not end so) is left as it is, and a category that loses an entry
  keeps exactly the entries that pass, in rank order, with the ranks \<open>1, \<dots>, M\<close>; the result is
  true exactly when some category holds an entry that fails the test. Nothing is written.
\<close>

theorem cleanupCategories_prunes:
  assumes "distinct (map fst (categories st))"
  shows "map fst (categories (fst (cleanupCategories installed st))) = map fst (categories st)
       \<and> list_all2 (pruned installed)
            (map snd (categories st)) (map snd (categories (fst (cleanupCategories installed st))))
       \<and> (snd (cleanupCategories installed st) \<longleftrightarrow>
            list_ex (\<lambda>(k, c). list_ex (\<lambda>a. \<not> passes installed a) (apps c)) (categories st))
       \<and> extension_path (fst (cleanupCategories installed st)) = extension_path st
       \<and> effects (fst (cleanupCategories installed st)) = effects st"
proof -
  let ?f = "\<lambda>(k, c). (k, fst (cleanup_category installed c))"
  have loop: "cleanup_loop installed (categories st) (categories st) False =
      (map ?f (categories st), list_ex (\<lambda>(k, c). snd (cleanup_category installed c)) (categories st))"
    using cleanup_loop_map[of "[]" "categories st" installed False] assms by simp
  have keys: "map fst (map ?f (categories st)) = map fst (categories st)"
    by (induction "categories st") auto
  have vals: "list_all2 (pruned installed) (map snd m) (map snd (map ?f m))" for m
    by (induction m) (auto simp: cleanup_category_pruned)
  have ch: "list_ex (\<lambda>(k, c). snd (cleanup_category installed c)) m \<longleftrightarrow>
            list_ex (\<lambda>(k, c). list_ex (\<lambda>a. \<not> passes installed a) (apps c)) m" for m
    by (induction m) (auto simp: cleanup_category_changed list_all_iff list_ex_iff)
  show ?thesis
    unfolding cleanupCategories_def loop
    using keys vals[of "categories st"] ch[of "categories st"] by simp
qed


theorem cleanupCategories_prunes_witness:
  "distinct (map fst (categories (editor [(''Work'', Work), (''Play'', Play)])))
   \<and> list_all2 (pruned (\<lambda>d. d \<noteq> ''a.desktop''))
        [Work, Play]
        (map snd (categories (fst (cleanupCategories (\<lambda>d. d \<noteq> ''a.desktop'')
           (editor [(''Work'', Work), (''Play'', Play)])))))
   \<and> cleanupCategories (\<lambda>d. d \<noteq> ''a.desktop'') (editor [(''Work'', Work), (''Play'', Play)])
       = (editor [(''Work'', Work\<lparr>apps := []\<rparr>), (''Play'', Play)], True)"
  using cleanupCategories_prunes[of "editor [(''Work'', Work), (''Play'', Play)]"
      "\<lambda>d. d \<noteq> ''a.desktop''"]
  by (simp add: editor_def Work_def Play_def cleanupCategories_def cleanup_category_def
      desktopId_of_def endsWith_def renumber_def)

section \<open>Moving a category up or down\<close>

lemma map_insort_key: "map f (insort_key f x xs) = insort (f x) (map f xs)"
  by (induction xs) auto

lemma map_sort_key: "map f (sort_key f xs) = sort (map f xs)"
  by (induction xs) (simp_all add: map_insort_key)

lemma ranked_ranks_positions:
  "ranked_ranks m =
     map (\<lambda>i. the (rank (value_at m i))) (filter (\<lambda>i. rank (value_at m i) \<noteq> None) [0 ..< length m])"
proof (induction m rule: rev_induct)
  case Nil
  then show ?case by (simp add: ranked_ranks_def List.map_filter_simps)
next
  case (snoc x m)
  have old: "value_at (m @ [x]) i = value_at m i" if "i < length m" for i
    using that by (simp add: value_at_def nth_append)
  have f: "filter (\<lambda>i. rank (value_at (m @ [x]) i) \<noteq> None) [0 ..< length m]
         = filter (\<lambda>i. rank (value_at m i) \<noteq> None) [0 ..< length m]"
    by (rule filter_cong) (simp_all add: old)
  have g: "map (\<lambda>i. the (rank (value_at (m @ [x]) i))) (filter (\<lambda>i. rank (value_at m i) \<noteq> None) [0 ..< length m])
         = map (\<lambda>i. the (rank (value_at m i))) (filter (\<lambda>i. rank (value_at m i) \<noteq> None) [0 ..< length m])"
    by (rule map_cong) (simp_all add: old)
  have last: "value_at (m @ [x]) (length m) = snd x"
    by (simp add: value_at_def)
  have app: "ranked_ranks (m @ [x]) = ranked_ranks m @ (case rank (snd x) of None \<Rightarrow> [] | Some r \<Rightarrow> [r])"
    by (cases x) (auto simp: ranked_ranks_def List.map_filter_def split: option.splits)
  show ?case
    unfolding app snoc.IH using f g last
    by (cases "rank (snd x)") simp_all
qed

lemma findIndex_first:
  "j < length xs \<Longrightarrow> Q (xs ! j) \<Longrightarrow> (\<forall>j' < j. \<not> Q (xs ! j')) \<Longrightarrow> findIndex Q xs = int j"
proof (induction xs arbitrary: j)
  case Nil
  then show ?case by simp
next
  case (Cons x xs)
  show ?case
  proof (cases j)
    case 0
    then show ?thesis using Cons.prems by simp
  next
    case (Suc k)
    have nq: "\<not> Q x" using Cons.prems(3) Suc by auto
    have "findIndex Q xs = int k"
      using Cons.prems Suc by (intro Cons.IH) auto
    then show ?thesis using nq Suc by (simp add: Let_def)
  qed
qed


lemma ranked_keys:
  assumes "dense_ranks m"
  shows "map (\<lambda>i. the (rank (value_at m i))) (rankedCategories m)
           = [1 .. int (length (rankedCategories m))]"
proof -
  have "map (\<lambda>i. the (rank (value_at m i))) (rankedCategories m) = sort (ranked_ranks m)"
    unfolding rankedCategories_def map_sort_key ranked_ranks_positions ..
  moreover have "length (rankedCategories m) = length (ranked_ranks m)"
    unfolding rankedCategories_def ranked_ranks_positions by simp
  ultimately show ?thesis using assms by (simp add: dense_ranks_def)
qed

lemma set_ranked:
  "set (rankedCategories m) = {i. i < length m \<and> rank (value_at m i) \<noteq> None}"
  by (auto simp: rankedCategories_def)

lemma distinct_ranked: "distinct (rankedCategories m)"
  by (simp add: rankedCategories_def)

lemma ranked_nth:
  assumes "dense_ranks m" and "j < length (rankedCategories m)"
  shows "rank (value_at m (rankedCategories m ! j)) = Some (1 + int j)"
proof -
  let ?key = "\<lambda>i. the (rank (value_at m i))"
  have "map ?key (rankedCategories m) ! j = [1 .. int (length (rankedCategories m))] ! j"
    using ranked_keys[OF assms(1)] by simp
  then have "?key (rankedCategories m ! j) = 1 + int j"
    using assms(2) by simp
  moreover have "rankedCategories m ! j \<in> set (rankedCategories m)"
    using assms(2) by simp
  then have "rank (value_at m (rankedCategories m ! j)) \<noteq> None"
    unfolding set_ranked by simp
  ultimately show ?thesis by auto
qed

lemma ranked_index:
  assumes "dense_ranks m" and "p < length m" and "rank (value_at m p) = Some r"
  shows "1 \<le> r \<and> nat (r - 1) < length (rankedCategories m)
         \<and> rankedCategories m ! nat (r - 1) = p"
proof -
  have "p \<in> set (rankedCategories m)"
    unfolding set_ranked using assms(2,3) by simp
  then obtain j where j: "j < length (rankedCategories m)" "rankedCategories m ! j = p"
    by (auto simp: in_set_conv_nth)
  have "Some r = Some (1 + int j)"
    using ranked_nth[OF assms(1) j(1)] j(2) assms(3) by simp
  then have "r = 1 + int j" by simp
  then show ?thesis using j by simp
qed

lemma key_position:
  assumes "distinct (map fst m)" and "map_of m n = Some c"
  obtains p where "p < length m" "m ! p = (n, c)" "\<And>i. i < length m \<Longrightarrow> fst (m ! i) = n \<Longrightarrow> i = p"
proof -
  have "(n, c) \<in> set m" using assms(2) by (rule map_of_SomeD)
  then obtain p where p: "p < length m" "m ! p = (n, c)" by (auto simp: in_set_conv_nth)
  have "i = p" if "i < length m" "fst (m ! i) = n" for i
  proof -
    have "map fst m ! i = map fst m ! p" using that p by simp
    then show ?thesis
      using nth_eq_iff_index_eq[OF assms(1), of i p] that(1) p(1) by simp
  qed
  then show ?thesis using p that by blast
qed


text \<open>
  Claim C7: in a store with distinct keys, each the name of its category, and dense ranks,
  \<open>moveSelectedCategory\<close> with \<open>delta\<close> \<open>-1\<close> or \<open>+1\<close> on the selected category of rank \<open>r\<close>
  gives that category the rank \<open>r + delta\<close> and the category that had \<open>r + delta\<close> the rank
  \<open>r\<close>, changes nothing else and saves; when \<open>r + delta\<close> is below 1 (the top category moved
  up) or above the number of ranked categories (the bottom one moved down), or when the
  category has no rank, the state is as before and nothing is saved.
\<close>

theorem moveSelectedCategory_swaps:
  assumes K: "distinct (map fst (categories st))"
      and NM: "\<forall>(k, c) \<in> set (categories st). name c = k"
      and D: "dense_ranks (categories st)"
      and G: "map_of (categories st) categoryName = Some c"
      and delta: "delta = - 1 \<or> delta = 1"
  shows "moveSelectedCategory stringify write_ok (Some categoryName) delta st =
     (case rank c of
        None \<Rightarrow> st
      | Some r \<Rightarrow>
          if r + delta < 1 \<or> int (length (ranked_ranks (categories st))) < r + delta then st
          else saveCategoriesToFile stringify write_ok
                 (st\<lparr>categories :=
                    map (\<lambda>(k, c').
                           (k, if k = categoryName then c'\<lparr>rank := Some (r + delta)\<rparr>
                               else if rank c' = Some (r + delta) then c'\<lparr>rank := Some r\<rparr>
                               else c'))
                      (categories st)\<rparr>))"
proof (cases "rank c")
  case None
  then show ?thesis using G by (simp add: moveSelectedCategory_def)
next
  case (Some r)
  let ?m = "categories st"
  let ?ranked = "rankedCategories ?m"
  let ?N = "length ?ranked"
  obtain p where p: "p < length ?m" "?m ! p = (categoryName, c)"
    and p_only: "\<And>i. i < length ?m \<Longrightarrow> fst (?m ! i) = categoryName \<Longrightarrow> i = p"
    using key_position[OF K G] by blast
  have names: "name (value_at ?m i) = fst (?m ! i)" if "i < length ?m" for i
  proof -
    have "?m ! i \<in> set ?m" using that by simp
    then show ?thesis using NM by (auto simp: value_at_def case_prod_beta)
  qed
  have rp: "rank (value_at ?m p) = Some r" using p Some by (simp add: value_at_def)
  have idx: "1 \<le> r" "nat (r - 1) < ?N" "?ranked ! nat (r - 1) = p"
    using ranked_index[OF D p(1) rp] by simp_all
  have lenN: "?N = length (ranked_ranks ?m)"
    unfolding rankedCategories_def ranked_ranks_positions by simp
  have in_m: "i < length ?m" if "i \<in> set ?ranked" for i
    using that unfolding set_ranked by simp
  have cur: "findIndex (\<lambda>i. name (value_at ?m i) = categoryName) ?ranked = int (nat (r - 1))"
  proof (rule findIndex_first[OF idx(2)])
    show "name (value_at ?m (?ranked ! nat (r - 1))) = categoryName"
      using idx(3) p names[OF p(1)] by simp
    show "\<forall>j'<nat (r - 1). name (value_at ?m (?ranked ! j')) \<noteq> categoryName"
    proof (intro allI impI notI)
      fix j' assume j': "j' < nat (r - 1)" and eq: "name (value_at ?m (?ranked ! j')) = categoryName"
      have l: "j' < ?N" using j' idx(2) by simp
      then have im: "?ranked ! j' < length ?m" by (intro in_m) simp
      have "?ranked ! j' = p" using p_only[OF im] names[OF im] eq by simp
      then have "?ranked ! j' = ?ranked ! nat (r - 1)" using idx(3) by simp
      then have "j' = nat (r - 1)"
        using distinct_ranked[of ?m] l idx(2) by (simp add: nth_eq_iff_index_eq)
      then show False using j' by simp
    qed
  qed
  have curpos: "findIndex (\<lambda>kv. fst kv = categoryName) ?m = int p"
  proof (rule findIndex_first[OF p(1)])
    show "fst (?m ! p) = categoryName" using p by simp
    show "\<forall>j'<p. fst (?m ! j') \<noteq> categoryName"
      using p_only p(1) by (metis less_irrefl_nat less_trans)
  qed
  show ?thesis
  proof (cases "r + delta < 1 \<or> int ?N < r + delta")
    case True
    then have "int (nat (r - 1)) + delta < 0 \<or> int (nat (r - 1)) + delta \<ge> int ?N"
      using idx(1) by auto
    then show ?thesis using G Some True lenN cur
      by (simp add: moveSelectedCategory_def Let_def)
  next
    case False
    let ?j = "nat (r - 1 + delta)"
    let ?t = "?ranked ! ?j"
    have jN: "?j < ?N" using False idx(1) by auto
    have newIndex: "int (nat (r - 1)) + delta = int ?j" using False idx(1) by auto
    have inrange: "\<not> (int (nat (r - 1)) + delta < 0 \<or> int (nat (r - 1)) + delta \<ge> int ?N)"
      using False idx(1) by auto
    have rt: "rank (value_at ?m ?t) = Some (r + delta)"
      using ranked_nth[OF D jN] False by (simp add: algebra_simps)
    have tm: "?t < length ?m" using jN by (intro in_m) simp
    have tp: "?t \<noteq> p"
    proof
      assume "?t = p"
      then have "Some (r + delta) = Some r" using rt rp by simp
      then show False using delta by auto
    qed
    have t_only: "i = ?t" if "i < length ?m" "rank (value_at ?m i) = Some (r + delta)" for i
      using ranked_index[OF D that] by (simp add: algebra_simps)
    let ?F = "\<lambda>(k, c'). (k, if k = categoryName then c'\<lparr>rank := Some (r + delta)\<rparr>
                               else if rank c' = Some (r + delta) then c'\<lparr>rank := Some r\<rparr>
                               else c')"
    let ?m1 = "set_rank p (rank (value_at ?m ?t)) ?m"
    let ?m2 = "set_rank ?t (Some r) ?m1"
    have m2: "?m2 = map ?F ?m"
    proof (rule nth_equalityI)
      show "length ?m2 = length (map ?F ?m)" by (simp add: set_rank_def)
    next
      fix i assume "i < length ?m2"
      then have i: "i < length ?m" by (simp add: set_rank_def)
      consider (cur) "i = p" | (tgt) "i = ?t" | (other) "i \<noteq> p" "i \<noteq> ?t" by blast
      then show "?m2 ! i = map ?F ?m ! i"
      proof cases
        case cur
        then show ?thesis using i p tp rt by (simp add: set_rank_def)
      next
        case tgt
        have "fst (?m ! ?t) \<noteq> categoryName" using p_only[OF tm] tp by blast
        then show ?thesis using tgt i tp rt
          by (simp add: set_rank_def value_at_def case_prod_beta)
      next
        case other
        have k: "fst (?m ! i) \<noteq> categoryName" using p_only[OF i] other(1) by blast
        have "rank (value_at ?m i) \<noteq> Some (r + delta)" using t_only[OF i] other(2) by blast
        then show ?thesis using other i k
          by (simp add: set_rank_def value_at_def case_prod_beta)
      qed
    qed
    have "moveSelectedCategory stringify write_ok (Some categoryName) delta st
        = saveCategoriesToFile stringify write_ok (st\<lparr>categories := ?m2\<rparr>)"
      using G Some cur curpos newIndex inrange
      by (simp add: moveSelectedCategory_def Let_def)
    then show ?thesis using Some False lenN m2 by simp
  qed
qed

theorem moveSelectedCategory_swaps_witness:
  "dense_ranks (categories (editor [(''Work'', Work), (''Play'', Play)]))
   \<and> moveSelectedCategory (\<lambda>v. []) True (Some ''Work'') 1 (editor [(''Work'', Work), (''Play'', Play)])
       = saveCategoriesToFile (\<lambda>v. []) True
           (editor [(''Work'', Work\<lparr>rank := Some 2\<rparr>), (''Play'', Play\<lparr>rank := Some 1\<rparr>)])
   \<and> moveSelectedCategory (\<lambda>v. []) True (Some ''Work'') (- 1)
         (editor [(''Work'', Work), (''Play'', Play)])
       = editor [(''Work'', Work), (''Play'', Play)]
   \<and> moveSelectedCategory (\<lambda>v. []) True (Some ''Play'') 1
         (editor [(''Work'', Work), (''Play'', Play)])
       = editor [(''Work'', Work), (''Play'', Play)]"
  using moveSelectedCategory_swaps[of "editor [(''Work'', Work), (''Play'', Play)]"
      "''Work''" Work 1 "\<lambda>v. []" True]
    moveSelectedCategory_swaps[of "editor [(''Work'', Work), (''Play'', Play)]"
      "''Work''" Work "- 1" "\<lambda>v. []" True]
    moveSelectedCategory_swaps[of "editor [(''Work'', Work), (''Play'', Play)]"
      "''Play''" Play 1 "\<lambda>v. []" True]
  by (simp add: editor_def Work_def Play_def dense_ranks_def ranked_ranks_def
      List.map_filter_def upto.simps)

section \<open>Rank density\<close>

text \<open>
  Claim C1 fails on the code. With the store of categories \<open>Work\<close> (rank 1) and \<open>Play\<close> (rank
  2), no row selected and the label \<^verbatim>\<open>Add Category\<close>, a click on the add button with the
  name \<^verbatim>\<open>Work\<close> in the entry takes the new-category branch: the rank is the largest rank
  plus one, 3, and \<^verbatim>\<open>categories.set\<close> replaces the category \<open>Work\<close> of rank 1. The ranks
  are then 3 and 2: rank 1 is missing, and the handler does not recalculate the ranks as
  the close button's handler does.
\<close>

theorem add_existing_name_leaves_gap:
  "dense_ranks (categories (editor [(''Work'', Work), (''Play'', Play)]))
   \<and> map (\<lambda>(k, c). (k, rank c))
        (categories (addButton_clicked (\<lambda>v. []) True add_Work_again
           (editor [(''Work'', Work), (''Play'', Play)])))
       = [(''Work'', Some 3), (''Play'', Some 2)]
   \<and> \<not> dense_ranks
        (categories (addButton_clicked (\<lambda>v. []) True add_Work_again
           (editor [(''Work'', Work), (''Play'', Play)])))"
  by (simp add: editor_def Work_def Play_def dense_ranks_def ranked_ranks_def
      List.map_filter_def upto.simps addButton_clicked_def add_Work_again_def Let_def
      saveCategoriesToFile_def)

section \<open>The reference parser reads what the reference printer writes\<close>

declare show_nat.simps [simp del]

lemma hex_val_hex_char: "d < 16 \<Longrightarrow> hex_val (hex_char d) = Some d"
  by (simp add: hex_val_def hex_char_def Let_def)

lemma hex_val_zero: "hex_val CHR ''0'' = Some 0"
  by (simp add: hex_val_def)

lemma unicode_escape_control:
  assumes "(of_char c :: nat) < 32"
  shows "unicode_escape CHR ''0'' CHR ''0'' (hex_char (of_char c div 16)) (hex_char (of_char c mod 16))
           = Some [c]"
proof -
  let ?n = "of_char c :: nat"
  have a: "hex_val (hex_char (?n div 16)) = Some (?n div 16)"
    using assms by (intro hex_val_hex_char) simp
  have b: "hex_val (hex_char (?n mod 16)) = Some (?n mod 16)"
    by (intro hex_val_hex_char) simp
  have "?n div 16 * 16 + ?n mod 16 = ?n" by simp
  then show ?thesis
    using assms by (simp add: unicode_escape_def a b hex_val_zero utf8_def)
qed

lemma parse_chars_quote_char:
  "parse_chars (quote_char c @ t) =
     (case parse_chars t of None \<Rightarrow> None | Some (s, r) \<Rightarrow> Some (c # s, r))"
proof -
  consider (q) "c = quotation_mark" | (b) "c = backslash"
    | (e) "c \<in> {CHR 0x08, CHR 0x0C, CHR 0x0A, CHR 0x0D, CHR 0x09}"
    | (u) "c \<noteq> quotation_mark" "c \<noteq> backslash" "c \<notin> {CHR 0x08, CHR 0x0C, CHR 0x0A, CHR 0x0D, CHR 0x09}" "(of_char c :: nat) < 32"
    | (p) "c \<noteq> quotation_mark" "c \<noteq> backslash" "\<not> (of_char c :: nat) < 32"
    by blast
  then show ?thesis
  proof cases
    case q
    then show ?thesis
      by (cases "parse_chars t")
         (auto simp: quote_char_def unescape_def quotation_mark_def backslash_def)
  next
    case b
    then show ?thesis
      by (cases "parse_chars t")
         (auto simp: quote_char_def unescape_def quotation_mark_def backslash_def)
  next
    case e
    then show ?thesis
      by (cases "parse_chars t")
         (auto simp: quote_char_def unescape_def quotation_mark_def backslash_def)
  next
    case u
    then show ?thesis
      using unicode_escape_control[OF u(4)]
      by (cases "parse_chars t")
         (auto simp: quote_char_def quotation_mark_def backslash_def)
  next
    case p
    then have "quote_char c = [c]"
      by (auto simp: quote_char_def)
    then show ?thesis using p by simp
  qed
qed

lemma parse_chars_quoted:
  "parse_chars (concat (map quote_char s) @ quotation_mark # rest) = Some (s, rest)"
  by (induction s) (simp_all add: parse_chars_quote_char)

lemma digit_val_digit_char: "d < 10 \<Longrightarrow> digit_val (digit_char d) = Some d"
  by (simp add: digit_val_def digit_char_def Let_def)

lemma read_digits_show_nat:
  "read_digits acc (show_nat n @ rest) = read_digits (acc * 10 ^ length (show_nat n) + n) rest"
proof (induction n arbitrary: acc rest rule: show_nat.induct)
  case (1 n)
  show ?case
  proof (cases "n < 10")
    case True
    then show ?thesis
      by (simp add: show_nat.simps[of n] digit_val_digit_char)
  next
    case False
    have d: "digit_val (digit_char (n mod 10)) = Some (n mod 10)"
      by (intro digit_val_digit_char) simp
    have "read_digits acc (show_nat n @ rest)
        = read_digits acc (show_nat (n div 10) @ digit_char (n mod 10) # rest)"
      using False by (simp add: show_nat.simps[of n])
    also have "\<dots> = read_digits (acc * 10 ^ length (show_nat (n div 10)) + n div 10)
                        (digit_char (n mod 10) # rest)"
      using "1.IH"[OF False] .
    also have "\<dots> = read_digits ((acc * 10 ^ length (show_nat (n div 10)) + n div 10) * 10 + n mod 10) rest"
      by (simp add: d)
    also have "(acc * 10 ^ length (show_nat (n div 10)) + n div 10) * 10 + n mod 10
             = acc * 10 ^ length (show_nat n) + n"
      using False by (simp add: show_nat.simps[of n] algebra_simps)
    finally show ?thesis .
  qed
qed

lemma show_nat_head:
  "\<exists>d cs. show_nat n = digit_char d # cs \<and> d < 10 \<and> (d = 0 \<longrightarrow> n = 0 \<and> cs = [])"
proof (induction n rule: show_nat.induct)
  case (1 n)
  show ?case
  proof (cases "n < 10")
    case True
    then show ?thesis by (auto simp: show_nat.simps[of n] intro!: exI[of _ n])
  next
    case False
    from "1.IH"[OF False] obtain d cs where
      h: "show_nat (n div 10) = digit_char d # cs" "d < 10" "d = 0 \<longrightarrow> n div 10 = 0 \<and> cs = []"
      by blast
    have "d \<noteq> 0" using h(3) False by auto
    then show ?thesis using h False
      by (auto simp: show_nat.simps[of n] intro!: exI[of _ d])
  qed
qed


lemma read_digits_stop: "no_digit rest \<Longrightarrow> read_digits acc rest = (acc, rest)"
  by (cases rest) (simp_all add: no_digit_def)

lemma parse_nat_show_nat:
  assumes "no_digit rest"
  shows "parse_nat (show_nat n @ rest) = Some (n, rest)"
proof -
  obtain d cs where h: "show_nat n = digit_char d # cs" "d < 10" "d = 0 \<longrightarrow> n = 0 \<and> cs = []"
    using show_nat_head by blast
  have dv: "digit_val (digit_char d) = Some d" using h(2) by (rule digit_val_digit_char)
  show ?thesis
  proof (cases "d = 0")
    case True
    then show ?thesis using h dv by (simp add: parse_nat_def)
  next
    case False
    have "read_digits 0 (show_nat n @ rest) = (n, rest)"
      using read_digits_show_nat[of 0 n rest] read_digits_stop[OF assms] by simp
    moreover have "read_digits 0 (show_nat n @ rest) = read_digits d (cs @ rest)"
      by (simp add: h(1) dv)
    ultimately show ?thesis using False h(1) dv by (simp add: parse_nat_def)
  qed
qed


lemma delimited_no_digit: "delimited rest \<Longrightarrow> no_digit rest"
  by (cases rest) (auto simp: delimited_def no_digit_def digit_val_def)

lemma delimited_no_fraction: "delimited rest \<Longrightarrow> \<not> starts_fraction_or_exponent rest"
  by (cases rest) (auto simp: delimited_def starts_fraction_or_exponent_def)

lemma digit_char_not_minus: "d < 10 \<Longrightarrow> digit_char d \<noteq> CHR ''-''"
proof
  assume "d < 10" "digit_char d = CHR ''-''"
  then have "digit_val (digit_char d) = digit_val CHR ''-''" by simp
  then show False using \<open>d < 10\<close> by (simp add: digit_val_digit_char) (simp add: digit_val_def)
qed

lemma parse_number_show_int:
  assumes "delimited rest"
  shows "parse_number (show_int i @ rest) = Some (JNum i, rest)"
proof (cases "i < 0")
  case True
  then show ?thesis
    using parse_nat_show_nat[OF delimited_no_digit[OF assms], of "nat (- i)"]
      delimited_no_fraction[OF assms]
    by (simp add: parse_number_def show_int_def)
next
  case False
  obtain d cs where h: "show_nat (nat i) = digit_char d # cs" "d < 10"
    using show_nat_head by blast
  have "parse_nat (digit_char d # cs @ rest) = Some (nat i, rest)"
    using parse_nat_show_nat[OF delimited_no_digit[OF assms], of "nat i"] h(1) by simp
  then show ?thesis
    using False h digit_char_not_minus[OF h(2)] delimited_no_fraction[OF assms]
    by (simp add: parse_number_def show_int_def)
qed

lemma skip_ws_id: "\<not> is_json_ws c \<Longrightarrow> skip_ws (c # cs) = c # cs"
  by (simp add: skip_ws_def)

lemma digit_char_head:
  "d < 10 \<Longrightarrow> digit_char d \<notin> {CHR ''{'', CHR ''['', quotation_mark, CHR ''t'', CHR ''f'', CHR ''n'',
       CHR '']'', CHR ''}''} \<and> \<not> is_json_ws (digit_char d)"
proof -
  assume d: "d < 10"
  have "digit_val c = None" if "c \<in> {CHR ''{'', CHR ''['', quotation_mark, CHR ''t'', CHR ''f'', CHR ''n'',
       CHR '']'', CHR ''}''} \<or> is_json_ws c" for c
    using that by (auto simp: digit_val_def quotation_mark_def is_json_ws_def)
  then show ?thesis using digit_val_digit_char[OF d] by force
qed

lemma show_int_head:
  "\<exists>c cs. show_int i = c # cs \<and> c \<notin> {CHR ''{'', CHR ''['', quotation_mark, CHR ''t'', CHR ''f'', CHR ''n'',
       CHR '']'', CHR ''}''} \<and> \<not> is_json_ws c"
proof (cases "i < 0")
  case True
  then show ?thesis
    by (simp add: show_int_def quotation_mark_def is_json_ws_def)
next
  case False
  obtain d cs where h: "show_nat (nat i) = digit_char d # cs" "d < 10"
    using show_nat_head by blast
  then show ?thesis using False digit_char_head[OF h(2)]
    by (simp add: show_int_def)
qed

lemma stringify_head:
  "\<exists>c cs. JSON_stringify v = c # cs \<and> \<not> is_json_ws c \<and> c \<noteq> CHR '']'' \<and> c \<noteq> CHR ''}''"
proof (cases v)
  case (JNum i)
  then show ?thesis using show_int_head[of i] by auto
qed (auto simp: quote_def quotation_mark_def is_json_ws_def)

lemma join_head:
  assumes "vs \<noteq> []" and "\<And>v. \<exists>c cs. f v = c # cs \<and> Q c"
  shows "\<exists>c cs. join sep (map f vs) = c # cs \<and> Q c"
proof -
  obtain v vs' where vs: "vs = v # vs'" using assms(1) by (cases vs) auto
  obtain c cs where h: "f v = c # cs" "Q c" using assms(2) by blast
  show ?thesis by (cases vs') (simp_all add: vs h)
qed

lemma parse_value_null:
  "parse_value (Suc n) (JSON_stringify JNull @ rest) = Some (JNull, rest)"
  by (simp add: parse_literal_def quotation_mark_def)

lemma parse_value_bool:
  "parse_value (Suc n) (JSON_stringify (JBool b) @ rest) = Some (JBool b, rest)"
  by (cases b) (simp_all add: parse_literal_def quotation_mark_def)

lemma parse_value_string:
  "parse_value (Suc n) (JSON_stringify (JStr s) @ rest) = Some (JStr s, rest)"
  using parse_chars_quoted[of s rest]
  by (simp add: quote_def quotation_mark_def)

lemma parse_value_number:
  assumes "delimited rest"
  shows "parse_value (Suc n) (JSON_stringify (JNum i) @ rest) = Some (JNum i, rest)"
proof -
  from show_int_head[of i] obtain c cs where h: "show_int i = c # cs \<and>
     c \<notin> {CHR ''{'', CHR ''['', quotation_mark, CHR ''t'', CHR ''f'', CHR ''n'', CHR '']'', CHR ''}''}
     \<and> \<not> is_json_ws c"
    by (elim exE)
  have ne: "c \<noteq> CHR ''{''" "c \<noteq> CHR ''[''" "c \<noteq> quotation_mark" "c \<noteq> CHR ''t''"
    "c \<noteq> CHR ''f''" "c \<noteq> CHR ''n''"
    using h by simp_all
  have "parse_value (Suc n) ((c # cs) @ rest) = parse_number ((c # cs) @ rest)"
    using ne by simp
  then show ?thesis
    using parse_number_show_int[OF assms, of i] h by simp
qed

lemma parse_elements_join:
  assumes "\<And>v f rest. v \<in> set vs \<Longrightarrow> length (JSON_stringify v) \<le> f \<Longrightarrow> delimited rest \<Longrightarrow>
             parse_value f (JSON_stringify v @ rest) = Some (v, rest)"
      and "vs \<noteq> []"
      and "length (join '','' (map JSON_stringify vs)) < f"
  shows "parse_elements f (join '','' (map JSON_stringify vs) @ CHR '']'' # rest) = Some (vs, rest)"
  using assms
proof (induction vs arbitrary: f)
  case Nil
  then show ?case by simp
next
  case (Cons v vs)
  obtain f' where f: "f = Suc f'" using Cons.prems(3) by (cases f) auto
  show ?case
  proof (cases vs)
    case Nil
    have "parse_value f' (JSON_stringify v @ CHR '']'' # rest) = Some (v, CHR '']'' # rest)"
      using Cons.prems(3) f Nil
      by (intro Cons.prems(1)) (simp_all add: delimited_def)
    then show ?thesis using f Nil by (simp add: skip_ws_def is_json_ws_def)
  next
    case (Cons v' vs')
    let ?tail = "join '','' (map JSON_stringify vs) @ CHR '']'' # rest"
    have len: "length (join '','' (map JSON_stringify (v # vs)))
             = length (JSON_stringify v) + 1 + length (join '','' (map JSON_stringify vs))"
      using Cons by simp
    have "parse_value f' (JSON_stringify v @ CHR '','' # ?tail) = Some (v, CHR '','' # ?tail)"
      using Cons.prems(3) f len
      by (intro Cons.prems(1)) (simp_all add: delimited_def)
    moreover obtain c cs where hd: "join '','' (map JSON_stringify vs) = c # cs" "\<not> is_json_ws c"
      using join_head[of vs JSON_stringify "\<lambda>c. \<not> is_json_ws c" "'',''"] stringify_head Cons
      by blast
    moreover have "parse_elements f' ?tail = Some (vs, rest)"
    proof (rule Cons.IH)
      show "vs \<noteq> []" using Cons by simp
      show "length (join '','' (map JSON_stringify vs)) < f'"
        using Cons.prems(3) f len by simp
      show "\<And>v f rest. v \<in> set vs \<Longrightarrow> length (JSON_stringify v) \<le> f \<Longrightarrow> delimited rest \<Longrightarrow>
             parse_value f (JSON_stringify v @ rest) = Some (v, rest)"
        using Cons.prems(1) by simp
    qed
    ultimately show ?thesis using f Cons
      by (simp add: skip_ws_def is_json_ws_def)
  qed
qed



lemma member_text_head: "\<exists>cs. member_text kv = quotation_mark # cs"
  by (simp add: member_text_def quote_def)

lemma parse_members_join:
  assumes "\<And>kv f rest. kv \<in> set kvs \<Longrightarrow> length (JSON_stringify (snd kv)) \<le> f \<Longrightarrow> delimited rest \<Longrightarrow>
             parse_value f (JSON_stringify (snd kv) @ rest) = Some (snd kv, rest)"
      and "kvs \<noteq> []"
      and "length (join '','' (map member_text kvs)) < f"
  shows "parse_members f (join '','' (map member_text kvs) @ CHR ''}'' # rest) = Some (kvs, rest)"
  using assms
proof (induction kvs arbitrary: f)
  case Nil
  then show ?case by simp
next
  case (Cons kv kvs)
  obtain f' where f: "f = Suc f'" using Cons.prems(3) by (cases f) auto
  obtain k v where kv: "kv = (k, v)" by (cases kv)
  have key: "parse_chars (concat (map quote_char k) @ quotation_mark # t) = Some (k, t)" for t
    by (rule parse_chars_quoted)
  obtain c cs where vh: "JSON_stringify v = c # cs" "\<not> is_json_ws c"
    using stringify_head[of v] by (elim exE conjE)
  have mt: "member_text kv @ t = quotation_mark # concat (map quote_char k) @ quotation_mark # CHR '':'' # JSON_stringify v @ t" for t
    by (simp add: member_text_def kv quote_def)
  have lm: "length (member_text kv) = length (JSON_stringify v) + length (concat (map quote_char k)) + 3"
    by (simp add: member_text_def kv quote_def)
  show ?case
  proof (cases kvs)
    case Nil
    have "parse_value f' (JSON_stringify v @ CHR ''}'' # rest) = Some (v, CHR ''}'' # rest)"
      using Cons.prems(1)[of kv f' "CHR ''}'' # rest"] Cons.prems(3) f Nil lm kv
      by (simp add: delimited_def)
    moreover have tl: "join '','' (map member_text (kv # kvs)) @ CHR ''}'' # rest
            = member_text kv @ CHR ''}'' # rest"
      using Nil by simp
    ultimately show ?thesis
      unfolding tl mt f
      using key vh Nil
      by (simp add: skip_ws_def is_json_ws_def kv)
  next
    case (Cons kv' kvs')
    let ?tail = "join '','' (map member_text kvs) @ CHR ''}'' # rest"
    have len: "length (join '','' (map member_text (kv # kvs)))
             = length (member_text kv) + 1 + length (join '','' (map member_text kvs))"
      using Cons by simp
    have pv: "parse_value f' (JSON_stringify v @ CHR '','' # ?tail) = Some (v, CHR '','' # ?tail)"
      using Cons.prems(1)[of kv f' "CHR '','' # ?tail"] Cons.prems(3) f len lm kv
      by (simp add: delimited_def)
    obtain cs' where hd: "join '','' (map member_text kvs) = quotation_mark # cs'"
      using member_text_head[of kv'] Cons by (cases kvs') auto
    have rec: "parse_members f' ?tail = Some (kvs, rest)"
    proof (rule Cons.IH)
      show "kvs \<noteq> []" using Cons by simp
      show "length (join '','' (map member_text kvs)) < f'"
        using Cons.prems(3) f len by simp
      show "\<And>kv f rest. kv \<in> set kvs \<Longrightarrow> length (JSON_stringify (snd kv)) \<le> f \<Longrightarrow> delimited rest \<Longrightarrow>
             parse_value f (JSON_stringify (snd kv) @ rest) = Some (snd kv, rest)"
        using Cons.prems(1) by simp
    qed
    have tl: "join '','' (map member_text (kv # kvs)) @ CHR ''}'' # rest
            = member_text kv @ CHR '','' # ?tail"
      using Cons by simp
    have ws: "skip_ws ?tail = ?tail"
      unfolding hd by (simp add: skip_ws_def is_json_ws_def quotation_mark_def)
    show ?thesis
      unfolding tl mt f
      using key vh pv rec ws
      by (simp add: skip_ws_def is_json_ws_def kv)
  qed
qed

lemma Map_set_fresh: "k \<notin> fst ` set m \<Longrightarrow> Map_set m k v = m @ [(k, v)]"
  by (induction m) auto

lemma fold_Map_set_distinct:
  "distinct (map fst (pre @ kvs)) \<Longrightarrow> fold (\<lambda>(k, v) m. Map_set m k v) kvs pre = pre @ kvs"
proof (induction kvs arbitrary: pre)
  case Nil
  then show ?case by simp
next
  case (Cons kv kvs)
  obtain k v where kv: "kv = (k, v)" by (cases kv)
  have fresh: "k \<notin> fst ` set pre" using Cons.prems kv by auto
  have d: "distinct (map fst ((pre @ [(k, v)]) @ kvs))" using Cons.prems kv by simp
  show ?case using Cons.IH[OF d] by (simp add: kv Map_set_fresh[OF fresh])
qed

lemma new_Map_distinct: "distinct (map fst kvs) \<Longrightarrow> new_Map kvs = kvs"
  using fold_Map_set_distinct[of "[]" kvs] by (simp add: new_Map_def)

lemma stringify_obj_members:
  "JSON_stringify (JObj kvs) = CHR ''{'' # join '','' (map member_text kvs) @ ''}''"
proof -
  have eq: "(\<lambda>(k, v). quote k @ '':'' @ JSON_stringify v) = member_text"
    by (auto simp: member_text_def fun_eq_iff)
  show ?thesis unfolding JSON_stringify.simps eq by simp
qed

lemma parse_value_stringify:
  "unique_keys v \<Longrightarrow> length (JSON_stringify v) \<le> n \<Longrightarrow> delimited rest \<Longrightarrow>
   parse_value n (JSON_stringify v @ rest) = Some (v, rest)"
proof (induction v arbitrary: n rest)
  case JNull
  then obtain n' where "n = Suc n'" by (cases n) auto
  then show ?case using parse_value_null by simp
next
  case (JBool b)
  then obtain n' where "n = Suc n'" by (cases n) (auto split: if_splits)
  then show ?case using parse_value_bool by simp
next
  case (JNum i)
  obtain c cs where "show_int i = c # cs" using show_int_head[of i] by (elim exE conjE)
  then obtain n' where "n = Suc n'" using JNum.prems(2) by (cases n) auto
  then show ?case using parse_value_number[OF JNum.prems(3)] by simp
next
  case (JStr s)
  then obtain n' where "n = Suc n'" by (cases n) (auto simp: quote_def)
  then show ?case using parse_value_string by simp
next
  case (JArr vs)
  obtain n' where n: "n = Suc n'" using JArr.prems(2) by (cases n) auto
  show ?case
  proof (cases "vs = []")
    case True
    then show ?thesis using n by (simp add: skip_ws_def is_json_ws_def)
  next
    case False
    obtain c cs where hd: "join '','' (map JSON_stringify vs) = c # cs" "\<not> is_json_ws c \<and> c \<noteq> CHR '']''"
      using join_head[of vs JSON_stringify "\<lambda>c. \<not> is_json_ws c \<and> c \<noteq> CHR '']''" "'',''"]
        stringify_head False by blast
    have el: "parse_elements n' (join '','' (map JSON_stringify vs) @ CHR '']'' # rest) = Some (vs, rest)"
    proof (rule parse_elements_join)
      show "vs \<noteq> []" by (rule False)
      show "length (join '','' (map JSON_stringify vs)) < n'"
        using JArr.prems(2) n by simp
      fix v f r
      assume v: "v \<in> set vs" and "length (JSON_stringify v) \<le> f" and "delimited r"
      moreover have "unique_keys v" using JArr.prems(1) v by (simp add: list_all_iff)
      ultimately show "parse_value f (JSON_stringify v @ r) = Some (v, r)"
        by (intro JArr.IH)
    qed
    have "parse_value (Suc n') (CHR ''['' # (c # cs) @ CHR '']'' # rest) = Some (JArr vs, rest)"
      using hd(2) el[unfolded hd(1)]
      by (simp add: skip_ws_def quotation_mark_def)
    then show ?thesis using n hd(1) by simp
  qed
next
  case (JObj kvs)
  obtain n' where n: "n = Suc n'" using JObj.prems(2) by (cases n) auto
  show ?case
  proof (cases "kvs = []")
    case True
    then show ?thesis using n by (simp add: skip_ws_def is_json_ws_def)
  next
    case False
    then obtain kv kvs' where kvs: "kvs = kv # kvs'" by (cases kvs) auto
    obtain cs where hd: "join '','' (map member_text kvs) = quotation_mark # cs"
      using member_text_head[of kv] kvs by (cases kvs') auto
    have len: "length (JSON_stringify (JObj kvs)) = length (join '','' (map member_text kvs)) + 2"
      unfolding stringify_obj_members by simp
    have el: "parse_members n' (join '','' (map member_text kvs) @ CHR ''}'' # rest) = Some (kvs, rest)"
    proof (rule parse_members_join)
      show "kvs \<noteq> []" by (rule False)
      show "length (join '','' (map member_text kvs)) < n'"
        using JObj.prems(2) n len by simp
      fix kv f r
      assume kv: "kv \<in> set kvs" and "length (JSON_stringify (snd kv)) \<le> f" and "delimited r"
      moreover have "unique_keys (snd kv)" using JObj.prems(1) kv by (simp add: list_all_iff)
      moreover have "snd kv \<in> Basic_BNFs.snds kv" by (cases kv) simp
      ultimately show "parse_value f (JSON_stringify (snd kv) @ r) = Some (snd kv, r)"
        using JObj.IH[of kv "snd kv" f r] by simp
    qed
    have nm: "new_Map kvs = kvs" using JObj.prems(1) by (intro new_Map_distinct) simp
    have "parse_value (Suc n') (CHR ''{'' # (quotation_mark # cs) @ CHR ''}'' # rest) = Some (JObj kvs, rest)"
      using el[unfolded hd] nm
      by (simp add: skip_ws_def quotation_mark_def is_json_ws_def)
    then show ?thesis unfolding stringify_obj_members using n hd by simp
  qed
qed

lemma JSON_parse_stringify: "unique_keys v \<Longrightarrow> JSON_parse (JSON_stringify v) = Some v"
proof -
  assume u: "unique_keys v"
  obtain c cs where h: "JSON_stringify v = c # cs" "\<not> is_json_ws c"
    using stringify_head[of v] by (elim exE conjE)
  have "parse_value (Suc (length (JSON_stringify v))) (JSON_stringify v @ []) = Some (v, [])"
    by (rule parse_value_stringify[OF u]) (simp_all add: delimited_def)
  then show ?thesis
    unfolding JSON_parse_def using h by (simp add: skip_ws_def)
qed

lemma digit_char_not_newline: "d < 10 \<Longrightarrow> digit_char d \<noteq> newline"
proof
  assume d: "d < 10" and "digit_char d = newline"
  then have "digit_val (digit_char d) = digit_val newline" by simp
  then show False using digit_val_digit_char[OF d] by (simp add: digit_val_def newline_def)
qed

lemma hex_char_not_newline: "d < 16 \<Longrightarrow> hex_char d \<noteq> newline"
proof
  assume d: "d < 16" and "hex_char d = newline"
  then have "hex_val (hex_char d) = hex_val newline" by simp
  then show False using hex_val_hex_char[OF d] by (simp add: hex_val_def newline_def)
qed

lemma show_nat_no_newline: "newline \<notin> set (show_nat n)"
proof (induction n rule: show_nat.induct)
  case (1 n)
  show ?case
  proof (cases "n < 10")
    case True
    then show ?thesis using digit_char_not_newline[of n] by (auto simp: show_nat.simps[of n])
  next
    case False
    have "n mod 10 < 10" by simp
    then have "digit_char (n mod 10) \<noteq> newline" by (rule digit_char_not_newline)
    then show ?thesis using "1.IH"[OF False] False by (auto simp: show_nat.simps[of n])
  qed
qed

lemma show_int_no_newline: "newline \<notin> set (show_int i)"
  using show_nat_no_newline by (auto simp: show_int_def newline_def)

lemma quote_char_no_newline: "newline \<notin> set (quote_char c)"
proof -
  have a: "hex_char (of_char c div 16) \<noteq> newline" if "(of_char c :: nat) < 32"
    using that by (intro hex_char_not_newline) simp
  have b: "hex_char (of_char c mod 16) \<noteq> newline"
    by (intro hex_char_not_newline) simp
  show ?thesis using a b
    by (auto simp: quote_char_def newline_def quotation_mark_def backslash_def)
qed

lemma quote_no_newline: "newline \<notin> set (quote s)"
  using quote_char_no_newline by (auto simp: quote_def newline_def quotation_mark_def)

lemma join_no_newline:
  "newline \<notin> set sep \<Longrightarrow> (\<And>x. x \<in> set xs \<Longrightarrow> newline \<notin> set x) \<Longrightarrow> newline \<notin> set (join sep xs)"
  by (induction sep xs rule: join.induct) auto

lemma stringify_no_newline: "newline \<notin> set (JSON_stringify v)"
proof (induction v)
  case (JNum i)
  then show ?case using show_int_no_newline by simp
next
  case (JStr s)
  then show ?case using quote_no_newline by simp
next
  case (JArr vs)
  have "newline \<notin> set (join '','' (map JSON_stringify vs))"
  proof (rule join_no_newline)
    show "newline \<notin> set '',''" by (simp add: newline_def)
    fix x assume "x \<in> set (map JSON_stringify vs)"
    then show "newline \<notin> set x" using JArr.IH by auto
  qed
  then show ?case by (simp add: newline_def)
next
  case (JObj kvs)
  have "newline \<notin> set (join '','' (map member_text kvs))"
  proof (rule join_no_newline)
    show "newline \<notin> set '',''" by (simp add: newline_def)
    fix x assume "x \<in> set (map member_text kvs)"
    then obtain kv where kv: "kv \<in> set kvs" "x = member_text kv" by auto
    have "snd kv \<in> Basic_BNFs.snds kv" by (cases kv) simp
    then have "newline \<notin> set (JSON_stringify (snd kv))" using JObj.IH[OF kv(1)] by simp
    then show "newline \<notin> set x"
      using quote_no_newline[of "fst kv"] by (simp add: kv(2) member_text_def newline_def)
  qed
  then show ?case unfolding stringify_obj_members by (simp add: newline_def)
qed (simp_all add: newline_def)

lemma those_app_of_json: "those (map app_of_json (map app_to_json as)) = Some as"
  by (induction as) (simp_all add: app_to_json_def)

lemma category_of_json_inverse: "category_of_json (category_to_json c) = Some c"
proof -
  have "rank_of_json (rank_to_json (rank c)) = Some (rank c)"
    by (cases "rank c") (simp_all add: rank_to_json_def)
  then show ?thesis
    using those_app_of_json[of "apps c"] by (simp add: category_to_json_def)
qed

lemma unique_keys_category: "unique_keys (category_to_json c)"
  by (simp add: category_to_json_def rank_to_json_def list_all_iff app_to_json_def
      split: option.splits)

lemma category_text_head: "\<exists>cs. JSON_stringify (category_to_json c) = CHR ''{'' # cs"
  by (simp add: category_to_json_def)

lemma JSON_parse_category:
  "JSON_parse (JSON_stringify (category_to_json c)) = Some (category_to_json c)"
  using unique_keys_category by (rule JSON_parse_stringify)

section \<open>Saving and loading the categories\<close>

lemma split_line: "sep \<notin> set l \<Longrightarrow> split sep (l @ sep # t) = l # split sep t"
proof (induction l)
  case Nil
  then show ?case by simp
next
  case (Cons c l)
  then show ?case by auto
qed

lemma split_lines:
  "(\<And>l. l \<in> set ls \<Longrightarrow> sep \<notin> set l) \<Longrightarrow> ls \<noteq> [] \<Longrightarrow>
   split sep (join [sep] ls @ [sep]) = ls @ [[]]"
proof (induction "[sep]" ls rule: join.induct)
  case 1
  then show ?case by simp
next
  case (2 l)
  then show ?case using split_line[of sep l "[]"] by simp
next
  case (3 l l' ls)
  have "split sep (l @ sep # (join [sep] (l' # ls) @ [sep])) = l # split sep (join [sep] (l' # ls) @ [sep])"
    using 3(2) by (intro split_line) simp
  then show ?case using 3 by simp
qed

lemma blank_brace: "\<not> blank (CHR ''{'' # cs)"
proof (cases cs)
  case Nil
  then show ?thesis by (simp add: is_ws1_def)
next
  case (Cons a as)
  then show ?thesis
    by (cases as) (simp_all add: is_ws1_def is_ws2_def is_ws3_def)
qed

lemma decode_plain: "s = [] \<or> hd s \<noteq> CHR 0xEF \<Longrightarrow> decode s = s"
  by (induction s rule: decode.induct) auto

lemma file_lines_text:
  assumes nl: "\<And>l. l \<in> set ls \<Longrightarrow> newline \<notin> set l"
      and br: "\<And>l. l \<in> set ls \<Longrightarrow> \<exists>cs. l = CHR ''{'' # cs"
  shows "file_lines (join [newline] ls @ [newline]) = ls"
proof (cases "ls = []")
  case True
  then show ?thesis by (simp add: file_lines_def newline_def)
next
  case False
  then obtain l ls' where ls: "ls = l # ls'" by (cases ls) auto
  obtain cs where l: "l = CHR ''{'' # cs" using br[of l] ls by auto
  have "hd (join [newline] ls @ [newline]) = CHR ''{''"
    by (cases ls') (simp_all add: ls l)
  then have dec: "decode (join [newline] ls @ [newline]) = join [newline] ls @ [newline]"
    by (intro decode_plain) simp
  have keep: "filter (\<lambda>line. \<not> blank line) ls = ls"
    using br blank_brace by (auto simp: filter_id_conv)
  have sp: "split newline (join [newline] ls @ [newline]) = ls @ [[]]"
    by (rule split_lines) (use nl False in auto)
  show ?thesis
    by (simp add: file_lines_def dec sp keep)
qed

lemma load_lines_categories:
  assumes codec: "\<And>c. parse (stringify (category_to_json c)) = Some (category_to_json c)"
  shows "distinct (map fst (pre @ m)) \<Longrightarrow> \<forall>(k, c) \<in> set m. k = name c \<Longrightarrow>
         load_lines parse (map (\<lambda>(k, category). stringify (category_to_json category)) m) pre
           = Some (pre @ m, False)"
proof (induction m arbitrary: pre)
  case Nil
  then show ?case by simp
next
  case (Cons e m)
  obtain k c where e: "e = (k, c)" by (cases e)
  have k: "k = name c" using Cons.prems(2) e by simp
  obtain kvs where j: "category_to_json c = JObj kvs"
    by (simp add: category_to_json_def)
  have co: "category_of_json (JObj kvs) = Some c"
    using category_of_json_inverse[of c] unfolding j .
  have p: "parse (stringify (JObj kvs)) = Some (JObj kvs)"
    using codec[of c] unfolding j .
  have pc: "parse_category parse (stringify (category_to_json c)) = Category c"
    unfolding parse_category_def j p by (simp add: co del: category_of_json.simps)
  have fresh: "name c \<notin> fst ` set pre" using Cons.prems(1) e k by auto
  have d: "distinct (map fst ((pre @ [(k, c)]) @ m))" using Cons.prems(1) e by simp
  have "load_lines parse (map (\<lambda>(k, category). stringify (category_to_json category)) m) (pre @ [(k, c)])
          = Some ((pre @ [(k, c)]) @ m, False)"
    using Cons.IH[OF d] Cons.prems(2) by simp
  then show ?case
    using pc by (simp add: e Map_set_fresh[OF fresh] k)
qed


text \<open>
  Claim C3: let \<^verbatim>\<open>JSON.parse\<close> read back what \<^verbatim>\<open>JSON.stringify\<close> writes for a category of the
  schema, and let that text have no raw newline and start with a brace (all three hold of
  the built-ins, and of the reference pair of this theory). Then
  for a store with distinct keys, each the name of its category, \<open>saveCategoriesToFile\<close>
  writes a text from which \<open>loadCategories\<close>, whatever the map held before, loads exactly
  that store: the same keys in the same order, with the same ranks and applications, and
  nothing is logged.
\<close>

theorem save_then_load_roundtrip:
  assumes "\<And>c. parse (stringify (category_to_json c)) = Some (category_to_json c)"
      and "\<And>c. newline \<notin> set (stringify (category_to_json c))"
      and "\<And>c. \<exists>cs. stringify (category_to_json c) = CHR ''{'' # cs"
      and "distinct (map fst (categories st))"
      and "\<forall>(k, c) \<in> set (categories st). k = name c"
  shows "saveCategoriesToFile stringify True st =
           st\<lparr>effects := effects st @
                 [Wrote (categoriesFilePath (extension_path st))
                    (categories_text stringify (categories st))]\<rparr>
       \<and> loadCategories parse (ReadOk (categories_text stringify (categories st))) st' =
           Some (st'\<lparr>categories := categories st\<rparr>)"
proof -
  let ?ls = "map (\<lambda>(k, category). stringify (category_to_json category)) (categories st)"
  have fl: "file_lines (categories_text stringify (categories st)) = ?ls"
    unfolding categories_text_def
    by (rule file_lines_text) (use assms(2,3) in auto)
  have ll: "load_lines parse ?ls [] = Some (categories st, False)"
    using load_lines_categories[of parse stringify "[]" "categories st"] assms(1,4,5) by simp
  show ?thesis
    by (simp add: saveCategoriesToFile_def loadCategories_def fl ll)
qed

theorem save_then_load_roundtrip_witness:
  "distinct (map fst (categories (editor [(''Work'', Work), (''Play'', Play)])))
   \<and> loadCategories JSON_parse
        (ReadOk (categories_text JSON_stringify [(''Work'', Work), (''Play'', Play)])) (editor [])
      = Some (editor [(''Work'', Work), (''Play'', Play)])"
  using save_then_load_roundtrip[of JSON_parse JSON_stringify
      "editor [(''Work'', Work), (''Play'', Play)]" "editor []",
      OF JSON_parse_category stringify_no_newline category_text_head]
  by (simp add: editor_def Work_def Play_def)

section \<open>Files with malformed lines, and failing reads and writes\<close>

lemma parse_all_Some:
  "list_all (\<lambda>l. parse l \<noteq> None) ls \<Longrightarrow> parse_all parse ls = Some (List.map_filter parse ls)"
  by (induction ls) (auto simp: List.map_filter_simps)

lemma parse_all_None:
  "\<not> list_all (\<lambda>l. parse l \<noteq> None) ls \<Longrightarrow> parse_all parse ls = None"
  by (induction ls) (auto split: option.splits)


text \<open>
  Claim C2, as stated, has \<open>loadRecentsFromDisk\<close> keep the well-formed records of a file
  with a malformed line. The file below has the record of \<^verbatim>\<open>a.desktop\<close> and a line that is not
  JSON: \<^verbatim>\<open>JSON.parse\<close> throws inside \<^verbatim>\<open>lines.map\<close>, the \<^verbatim>\<open>catch\<close> block sets \<^verbatim>\<open>recents = []\<close>, and
  the record is lost.
\<close>

theorem one_bad_line_empties_recents:
  "recents (loadRecentsFromDisk JSON_parse (ReadOk recents_file_with_bad_line) (enabled ''/e'')) = []
   \<and> take MAX_RECENTS (well_formed_records JSON_parse (file_lines recents_file_with_bad_line))
       = [[(''id'', JStr ''a.desktop''), (''ts'', JNum 1)]]
   \<and> recents (loadRecentsFromDisk JSON_parse (ReadOk recents_file_with_bad_line) (enabled ''/e''))
       \<noteq> take MAX_RECENTS
           (well_formed_records JSON_parse (file_lines recents_file_with_bad_line))"
  by code_simp


text \<open>
  Claim C2, amended: when every line that is not blank is JSON, the loaded list is, in file
  order, the objects with a string \<^verbatim>\<open>id\<close> among the values of the lines (a line that is JSON
  but no such object is left out on its own), cut to 15; when some line is not JSON the
  list is empty; when the file cannot be read the list is empty. Nothing else of the state
  changes.
\<close>

theorem loadRecentsFromDisk_all_or_nothing:
  "loadRecentsFromDisk parse (ReadOk contents) st =
     st\<lparr>recents :=
          (if list_all (\<lambda>line. parse line \<noteq> None) (file_lines contents)
           then take MAX_RECENTS (well_formed_records parse (file_lines contents))
           else [])\<rparr>
   \<and> loadRecentsFromDisk parse ReadThrows st = st\<lparr>recents := []\<rparr>"
  by (simp add: loadRecentsFromDisk_def well_formed_records_def parse_all_Some parse_all_None)


lemma load_lines_stops:
  "list_all (is_category_line parse) good \<Longrightarrow> parse_category parse bad = Threw \<Longrightarrow>
   load_lines parse (good @ bad # later) m =
     Some (fold (\<lambda>line m. case parse_category parse line of
                       Category c \<Rightarrow> Map_set m (name c) c
                     | _ \<Rightarrow> m) good m, True)"
  by (induction good arbitrary: m) (auto simp: is_category_line_def split: parsed_line.splits)


text \<open>
  Claim C5, as stated, has every failure leave the state in memory as it was. In
  \<open>loadCategories\<close> the map is cleared before the lines are parsed: with a file whose second
  line is not JSON, the editor that held \<open>Work\<close> and \<open>Play\<close> holds \<open>Play\<close> alone afterwards. In
  \<open>loadRecentsFromDisk\<close> the \<^verbatim>\<open>catch\<close> block empties the list, and reports nothing.
\<close>

theorem load_failures_lose_state:
  \<open>loadCategories JSON_parse (ReadOk categories_file_with_bad_line)
        (editor [(''Work'', Work), (''Play'', Play)])
      = Some ((editor [(''Play'', Play)])\<lparr>effects := [Logged ''Failed to load categories.jsonl'']\<rparr>)
   \<and> categories (editor [(''Work'', Work), (''Play'', Play)]) \<noteq> [(''Play'', Play)]
   \<and> recents (loadRecentsFromDisk JSON_parse ReadThrows recents_with_repeat) = []
   \<and> recents recents_with_repeat \<noteq> []
   \<and> trace (loadRecentsFromDisk JSON_parse ReadThrows recents_with_repeat) = trace recents_with_repeat\<close>
  by code_simp

text \<open>
  Claim C5, amended. No failure reaches the caller. A failed write leaves the state in
  memory as it was and is reported (the categories: logged; the recents: logged and
  notified). A categories file that cannot be read leaves the map as it was and is logged.
  A categories file with a line that is not JSON is logged, and the map holds what the
  lines before that line stored. A recents file that cannot be read, or has a line that
  is not JSON, leaves the list empty.
\<close>

theorem failures_and_state:
  "saveCategoriesToFile stringify False st =
      st\<lparr>effects := effects st @ [Logged ''Failed to save categories.jsonl'']\<rparr>
   \<and> saveRecentsToDisk stringify False p =
      p\<lparr>trace := trace p @ [Logged ''Failed to write recents.jsonl'',
                              Notified ''Could not save recents.jsonl'']\<rparr>
   \<and> loadCategories parse ReadThrows st =
      Some (st\<lparr>effects := effects st @ [Logged ''Failed to load categories.jsonl'']\<rparr>)
   \<and> loadRecentsFromDisk parse ReadThrows p = p\<lparr>recents := []\<rparr>
   \<and> (\<not> list_all (\<lambda>line. parse line \<noteq> None) (file_lines contents) \<longrightarrow>
        loadRecentsFromDisk parse (ReadOk contents) p = p\<lparr>recents := []\<rparr>)
   \<and> (file_lines contents = good @ bad # later \<and> list_all (is_category_line parse) good
        \<and> parse_category parse bad = Threw \<longrightarrow>
        loadCategories parse (ReadOk contents) st =
          Some (st\<lparr>categories := stored parse good,
                   effects := effects st @ [Logged ''Failed to load categories.jsonl'']\<rparr>))"
  by (simp add: saveCategoriesToFile_def saveRecentsToDisk_def loadCategories_def
      loadRecentsFromDisk_def parse_all_None load_lines_stops stored_def)


lemma bad_line_throws: "parse_category JSON_parse ''not json'' = Threw"
  by code_simp

lemma bad_line_no_json: "JSON_parse ''not json'' = None"
  by code_simp

lemma Play_line:
  \<open>parse_category JSON_parse ''{"name":"Play","rank":2,"apps":[]}'' = Category Play\<close>
  by code_simp

lemma categories_file_lines:
  \<open>file_lines categories_file_with_bad_line =
     [''{"name":"Play","rank":2,"apps":[]}''] @ ''not json'' # []\<close>
  by code_simp

lemma recents_file_lines:
  \<open>file_lines recents_file_with_bad_line = [''{"id":"a.desktop","ts":1}'', ''not json'']\<close>
  by code_simp


theorem failures_and_state_witness:
  \<open>parse_category JSON_parse ''not json'' = Threw
   \<and> loadCategories JSON_parse (ReadOk categories_file_with_bad_line)
        (editor [(''Work'', Work), (''Play'', Play)])
      = Some ((editor [(''Play'', Play)])\<lparr>effects := [Logged ''Failed to load categories.jsonl'']\<rparr>)
   \<and> loadRecentsFromDisk JSON_parse (ReadOk recents_file_with_bad_line) recents_with_repeat
      = recents_with_repeat\<lparr>recents := []\<rparr>\<close>
  using failures_and_state[of "\<lambda>v. []" "editor [(''Work'', Work), (''Play'', Play)]"
      recents_with_repeat JSON_parse recents_file_with_bad_line
      "[]" "[]" "[]"]
    failures_and_state[of "\<lambda>v. []" "editor [(''Work'', Work), (''Play'', Play)]"
      recents_with_repeat JSON_parse categories_file_with_bad_line
      \<open>[''{"name":"Play","rank":2,"apps":[]}'']\<close> "''not json''" "[]"]
    bad_line_throws bad_line_no_json Play_line categories_file_lines recents_file_lines
  by (simp add: is_category_line_def stored_def editor_def Play_def)


section \<open>Where the categories watcher does reload once\<close>

lemma rearm_from_idle:
  "sources st = [] \<Longrightarrow> armed (rearm ReloadCategoriesCb st) \<and> reloads (rearm ReloadCategoriesCb st) = reloads st"
  by (simp add: rearm_def armed_def timeout_add_def source_remove_def reloads_def Let_def)

lemma elapse_idle: "sources st = [] \<Longrightarrow> sources (elapse ms st) = [] \<and> reloads (elapse ms st) = reloads st"
  by (simp add: elapse_def reloads_def Let_def)

lemma rearm_after_gap:
  assumes "armed st" and "gap < RELOAD_DELAY_MS"
  shows "armed (rearm ReloadCategoriesCb (elapse gap st))
       \<and> reloads (rearm ReloadCategoriesCb (elapse gap st)) = reloads st"
proof -
  let ?tag = "reloadTimeoutId st"
  have src: "sources st = [(?tag, clock st + RELOAD_DELAY_MS, ReloadCategoriesCb)]" and tag: "?tag \<noteq> 0"
    using assms(1) by (simp_all add: armed_def)
  have el: "elapse gap st = st\<lparr>clock := clock st + gap\<rparr>"
    using assms(2) by (simp add: elapse_def src Let_def)
  show ?thesis
    unfolding el using tag src
    by (simp add: rearm_def armed_def timeout_add_def source_remove_def reloads_def Let_def)
qed

lemma burst_armed:
  assumes "armed st"
      and "\<forall>c \<in> set changes. fst c < RELOAD_DELAY_MS \<and> qualifying (snd c)"
  shows "armed (run (burst changes) st) \<and> reloads (run (burst changes) st) = reloads st"
  using assms
proof (induction changes arbitrary: st)
  case Nil
  then show ?case by (simp add: run_def burst_def)
next
  case (Cons c changes)
  obtain gap ev where c: "c = (gap, ev)" by (cases c)
  have q: "gap < RELOAD_DELAY_MS" "qualifying ev" using Cons.prems(2) c by auto
  let ?st = "rearm ReloadCategoriesCb (elapse gap st)"
  have st': "armed ?st" "reloads ?st = reloads st"
    using rearm_after_gap[OF Cons.prems(1) q(1)] by simp_all
  have "run (burst (c # changes)) st = run (burst changes) ?st"
    using q(2) by (simp add: run_def burst_def c on_categories_file_changed_def qualifying_def)
  then show ?case using Cons.IH[OF st'(1)] Cons.prems(2) st'(2) by simp
qed

lemma quiet_fires:
  assumes "armed st" and "RELOAD_DELAY_MS \<le> quiet"
  shows "reloads (elapse quiet st) = reloads st + 1 \<and> sources (elapse quiet st) = []
       \<and> reloadTimeoutId (elapse quiet st) = 0"
proof -
  let ?tag = "reloadTimeoutId st"
  have src: "sources st = [(?tag, clock st + RELOAD_DELAY_MS, ReloadCategoriesCb)]"
    using assms(1) by (simp add: armed_def)
  show ?thesis using assms(2)
    by (simp add: elapse_def src Let_def source_remove_def reloads_def)
qed


text \<open>
  A burst of changes of the categories file alone is debounced as intended: from a popup
  with no pending timeout, changes of type \<^verbatim>\<open>CHANGES_DONE_HINT\<close> or \<^verbatim>\<open>CREATED\<close>, each less than
  500 ms after the one before, followed by 500 ms or more without any event, run the
  reload callback exactly once and leave nothing pending.
\<close>

theorem burst_reloads_once:
  assumes "sources st = []"
      and "qualifying first"
      and "\<forall>c \<in> set changes. fst c < RELOAD_DELAY_MS \<and> qualifying (snd c)"
      and "RELOAD_DELAY_MS \<le> quiet"
  shows "reloads (run (CategoriesFileChanged first # burst changes @ [Elapse quiet]) st) = reloads st + 1
       \<and> sources (run (CategoriesFileChanged first # burst changes @ [Elapse quiet]) st) = []
       \<and> reloadTimeoutId (run (CategoriesFileChanged first # burst changes @ [Elapse quiet]) st) = 0"
proof -
  let ?st1 = "rearm ReloadCategoriesCb st"
  let ?st2 = "run (burst changes) ?st1"
  have a1: "armed ?st1" "reloads ?st1 = reloads st" using rearm_from_idle[OF assms(1)] by simp_all
  have a2: "armed ?st2" "reloads ?st2 = reloads ?st1" using burst_armed[OF a1(1) assms(3)] by simp_all
  have "run (CategoriesFileChanged first # burst changes @ [Elapse quiet]) st = elapse quiet ?st2"
    using assms(2) by (simp add: run_def on_categories_file_changed_def qualifying_def)
  then show ?thesis using quiet_fires[OF a2(1) assms(4)] a1(2) a2(2) by simp
qed

theorem burst_reloads_once_witness:
  "reloads (run (CategoriesFileChanged CREATED # burst [(100, CHANGES_DONE_HINT), (499, CHANGES_DONE_HINT)] @ [Elapse 500]) (enabled ''/e'')) = 1"
  using burst_reloads_once[of "enabled ''/e''" CREATED "[(100, CHANGES_DONE_HINT), (499, CHANGES_DONE_HINT)]" 500]
  by (simp add: enabled_def qualifying_def RELOAD_DELAY_MS_def reloads_def)

section \<open>Where the editor keeps the ranks dense\<close>

lemma fold_set_rank:
  assumes "distinct (map fst ps)"
  shows "length (fold (\<lambda>(cat, index) m'. set_rank cat (Some (int index + 1)) m') ps m) = length m
       \<and> (\<forall>i < length m.
            fold (\<lambda>(cat, index) m'. set_rank cat (Some (int index + 1)) m') ps m ! i =
              (case map_of ps i of
                 None \<Rightarrow> m ! i
               | Some index \<Rightarrow> (fst (m ! i), (snd (m ! i))\<lparr>rank := Some (int index + 1)\<rparr>)))"
  using assms
proof (induction ps arbitrary: m)
  case Nil
  then show ?case by simp
next
  case (Cons p ps)
  obtain cat index where p: "p = (cat, index)" by (cases p)
  let ?m1 = "set_rank cat (Some (int index + 1)) m"
  have d: "distinct (map fst ps)" and fresh: "map_of ps cat = None"
    using Cons.prems p by (auto simp: map_of_eq_None_iff)
  have len1: "length ?m1 = length m" by (simp add: set_rank_def)
  from Cons.IH[OF d, of ?m1] have
    len: "length (fold (\<lambda>(cat, index) m'. set_rank cat (Some (int index + 1)) m') ps ?m1) = length m"
    and nth: "\<And>i. i < length m \<Longrightarrow>
       fold (\<lambda>(cat, index) m'. set_rank cat (Some (int index + 1)) m') ps ?m1 ! i =
         (case map_of ps i of
            None \<Rightarrow> ?m1 ! i
          | Some index \<Rightarrow> (fst (?m1 ! i), (snd (?m1 ! i))\<lparr>rank := Some (int index + 1)\<rparr>))"
    using len1 by simp_all
  show ?case
  proof (intro conjI allI impI)
    show "length (fold (\<lambda>(cat, index) m'. set_rank cat (Some (int index + 1)) m') (p # ps) m) = length m"
      using len by (simp add: p)
  next
    fix i assume i: "i < length m"
    show "fold (\<lambda>(cat, index) m'. set_rank cat (Some (int index + 1)) m') (p # ps) m ! i =
              (case map_of (p # ps) i of
                 None \<Rightarrow> m ! i
               | Some index \<Rightarrow> (fst (m ! i), (snd (m ! i))\<lparr>rank := Some (int index + 1)\<rparr>))"
    proof (cases "i = cat")
      case True
      then show ?thesis using nth[OF i] fresh i by (simp add: p set_rank_def)
    next
      case False
      then show ?thesis using nth[OF i] i
        by (simp add: p set_rank_def split: option.splits)
    qed
  qed
qed

lemma map_of_zip_index:
  "distinct xs \<Longrightarrow> j < length xs \<Longrightarrow> map_of (zip xs [0 ..< length xs]) (xs ! j) = Some j"
proof -
  assume d: "distinct xs" and j: "j < length xs"
  have "(xs ! j, j) \<in> set (zip xs [0 ..< length xs])"
    using j by (auto simp: set_zip intro!: exI[of _ j])
  moreover have "distinct (map fst (zip xs [0 ..< length xs]))" using d by simp
  ultimately show ?thesis by (rule map_of_is_SomeI[rotated])
qed

lemma map_of_zip_none:
  "i \<notin> set xs \<Longrightarrow> map_of (zip xs [0 ..< length xs]) i = None"
proof -
  assume i: "i \<notin> set xs"
  have "map fst (zip xs [0 ..< length xs]) = xs" by simp
  then have "fst ` set (zip xs [0 ..< length xs]) = set xs" by (metis set_map)
  then show ?thesis using i by (simp add: map_of_eq_None_iff)
qed


lemma recalculate_ranks_nth:
  assumes "i < length m"
  shows "length (recalculate_ranks m) = length m"
    and "i \<notin> set (rankedCategories m) \<Longrightarrow> recalculate_ranks m ! i = m ! i"
    and "j < length (rankedCategories m) \<Longrightarrow> i = rankedCategories m ! j \<Longrightarrow>
         rank (value_at (recalculate_ranks m) i) = Some (int j + 1)"
proof -
  let ?R = "rankedCategories m"
  let ?ps = "zip ?R [0 ..< length ?R]"
  have d: "distinct (map fst ?ps)" using distinct_ranked[of m] by simp
  note f = fold_set_rank[OF d, of m, folded recalculate_ranks_def]
  show "length (recalculate_ranks m) = length m" using f by simp
  have nth: "recalculate_ranks m ! i =
      (case map_of ?ps i of
         None \<Rightarrow> m ! i
       | Some index \<Rightarrow> (fst (m ! i), (snd (m ! i))\<lparr>rank := Some (int index + 1)\<rparr>))"
    using f assms by blast
  show "recalculate_ranks m ! i = m ! i" if "i \<notin> set ?R"
    unfolding nth map_of_zip_none[OF that] by simp
  show "rank (value_at (recalculate_ranks m) i) = Some (int j + 1)"
    if "j < length ?R" "i = ?R ! j"
  proof -
    have "map_of ?ps i = Some j"
      using map_of_zip_index[OF distinct_ranked that(1)] that(2) by simp
    then show ?thesis unfolding value_at_def nth by simp
  qed
qed

lemma recalculate_ranks_dense: "dense_ranks (recalculate_ranks m)"
proof -
  let ?R = "rankedCategories m"
  let ?m' = "recalculate_ranks m"
  let ?key = "\<lambda>i. the (rank (value_at ?m' i))"
  let ?P = "\<lambda>i. rank (value_at m i) \<noteq> None"
  let ?idx = "filter ?P [0 ..< length m]"
  have len: "length ?m' = length m"
  proof (cases m)
    case Nil
    then show ?thesis by (simp add: recalculate_ranks_def rankedCategories_def)
  next
    case (Cons a list)
    then have "0 < length m" by simp
    then show ?thesis by (rule recalculate_ranks_nth(1))
  qed
  have inR: "i \<in> set ?R \<longleftrightarrow> i < length m \<and> ?P i" for i
    unfolding set_ranked by simp
  have same: "rank (value_at ?m' i) \<noteq> None \<longleftrightarrow> ?P i" if i: "i < length m" for i
  proof (cases "i \<in> set ?R")
    case True
    then obtain j where j: "j < length ?R" "?R ! j = i" by (auto simp: in_set_conv_nth)
    have "rank (value_at ?m' i) = Some (int j + 1)"
      using recalculate_ranks_nth(3)[OF i j(1)] j(2) by simp
    then show ?thesis using True inR by simp
  next
    case False
    then have "?m' ! i = m ! i" using recalculate_ranks_nth(2)[OF i] by simp
    then show ?thesis by (simp add: value_at_def)
  qed
  have idx: "filter (\<lambda>i. rank (value_at ?m' i) \<noteq> None) [0 ..< length ?m'] = ?idx"
    unfolding len by (rule filter_cong) (use same in auto)
  have rr: "ranked_ranks ?m' = map ?key ?idx"
    unfolding ranked_ranks_positions idx ..
  have keyR: "map ?key ?R = [1 .. int (length ?R)]"
  proof (rule nth_equalityI)
    show "length (map ?key ?R) = length [1 .. int (length ?R)]" by simp
  next
    fix j assume "j < length (map ?key ?R)"
    then have j: "j < length ?R" by simp
    then have "?R ! j \<in> set ?R" by simp
    then have i: "?R ! j < length m" using inR by simp
    have "rank (value_at ?m' (?R ! j)) = Some (int j + 1)"
      using recalculate_ranks_nth(3)[OF i j] by simp
    then show "map ?key ?R ! j = [1 .. int (length ?R)] ! j"
      using j by simp
  qed
  have setR: "set ?R = set ?idx" by (auto simp: inR)
  have lenR: "length ?R = length ?idx" by (simp add: rankedCategories_def)
  have inj: "inj_on ?key (set ?R)"
  proof -
    have "distinct (map ?key ?R)" unfolding keyR by simp
    then show ?thesis by (simp add: distinct_map)
  qed
  have "sort (map ?key ?idx) = [1 .. int (length ?R)]"
  proof (rule sorted_distinct_set_unique)
    show "sorted (sort (map ?key ?idx))" by simp
    show "distinct (sort (map ?key ?idx))"
      using inj setR by (simp add: distinct_map)
    show "sorted [1 .. int (length ?R)]" by simp
    show "distinct [1 .. int (length ?R)]" by simp
    have "set (map ?key ?idx) = set (map ?key ?R)" using setR by simp
    then show "set (sort (map ?key ?idx)) = set [1 .. int (length ?R)]"
      unfolding keyR by simp
  qed
  then show ?thesis
    unfolding dense_ranks_def rr using lenR by simp
qed

text \<open>
  The close button: whatever the store was, after the handler the ranks that are not
  \<^verbatim>\<open>null\<close> are \<open>1, \<dots>, N\<close>.
\<close>

theorem closeButton_clicked_dense:
  "dense_ranks (categories (closeButton_clicked stringify write_ok categoryName st))"
  by (simp add: closeButton_clicked_def saveCategoriesToFile_def recalculate_ranks_dense)

lemma ranked_ranks_append: "ranked_ranks (a @ b) = ranked_ranks a @ ranked_ranks b"
  by (simp add: ranked_ranks_def List.map_filter_def)

lemma ranked_ranks_single: "ranked_ranks [(k, c)] = (case rank c of None \<Rightarrow> [] | Some r \<Rightarrow> [r])"
  by (simp add: ranked_ranks_def List.map_filter_def split: option.splits)

lemma ranked_ranks_map:
  "(\<And>c. rank (f c) = rank c) \<Longrightarrow> ranked_ranks (map (\<lambda>(k, c). (k, f c)) m) = ranked_ranks m"
  by (induction m) (auto simp: ranked_ranks_def List.map_filter_def)

lemma rank_cleanup_category: "rank (fst (cleanup_category installed c)) = rank c"
  by (simp add: cleanup_category_def Let_def)


text \<open>
  Pruning: in a store with distinct keys, \<open>cleanupCategories\<close> leaves the ranks of the
  categories as they are, so it keeps dense ranks dense.
\<close>

theorem cleanupCategories_keeps_ranks:
  assumes "distinct (map fst (categories st))"
  shows "ranked_ranks (categories (fst (cleanupCategories installed st))) = ranked_ranks (categories st)
       \<and> (dense_ranks (categories (fst (cleanupCategories installed st))) \<longleftrightarrow> dense_ranks (categories st))"
proof -
  have "categories (fst (cleanupCategories installed st))
      = map (\<lambda>(k, c). (k, fst (cleanup_category installed c))) (categories st)"
    using cleanup_loop_map[of "[]" "categories st" installed False] assms
    by (simp add: cleanupCategories_def)
  then have "ranked_ranks (categories (fst (cleanupCategories installed st))) = ranked_ranks (categories st)"
    using ranked_ranks_map[of "\<lambda>c. fst (cleanup_category installed c)" "categories st"]
    by (simp add: rank_cleanup_category)
  then show ?thesis by (simp add: dense_ranks_def)
qed


theorem cleanupCategories_keeps_ranks_witness:
  "distinct (map fst (categories (editor [(''Work'', Work), (''Play'', Play)])))
   \<and> ranked_ranks (categories (fst (cleanupCategories (\<lambda>d. d \<noteq> ''a.desktop'')
          (editor [(''Work'', Work), (''Play'', Play)])))) = [1, 2]"
  using cleanupCategories_keeps_ranks[of "editor [(''Work'', Work), (''Play'', Play)]"
      "\<lambda>d. d \<noteq> ''a.desktop''"]
  by (simp add: editor_def Work_def Play_def ranked_ranks_def List.map_filter_def)

lemma dense_set: "dense_ranks m \<Longrightarrow> set (ranked_ranks m) = {1 .. int (length (ranked_ranks m))} \<and> distinct (ranked_ranks m)"
proof -
  assume d: "dense_ranks m"
  let ?rs = "ranked_ranks m"
  have s: "sort ?rs = [1 .. int (length ?rs)]" using d by (simp add: dense_ranks_def)
  have "set ?rs = set (sort ?rs)" by simp
  also have "\<dots> = {1 .. int (length ?rs)}" unfolding s by simp
  finally have a: "set ?rs = {1 .. int (length ?rs)}" .
  have "distinct (sort ?rs)" unfolding s by simp
  then have "distinct ?rs" by simp
  then show ?thesis using a by simp
qed

lemma fold_max_dense:
  assumes "dense_ranks m"
  shows "fold max (ranked_ranks m) 0 = int (length (ranked_ranks m))"
proof -
  let ?rs = "ranked_ranks m"
  let ?N = "int (length ?rs)"
  have s: "set ?rs = {1 .. ?N}" using dense_set[OF assms] by simp
  have "Max (set (0 # ?rs)) = fold max ?rs 0" by (rule Max.set_eq_fold)
  then have "fold max ?rs 0 = Max (set (0 # ?rs))" by (rule sym)
  also have "\<dots> = ?N"
  proof (rule Max_eqI)
    show "finite (set (0 # ?rs))" by simp
    show "\<And>y. y \<in> set (0 # ?rs) \<Longrightarrow> y \<le> ?N" using s by auto
    show "?N \<in> set (0 # ?rs)"
    proof (cases "length ?rs")
      case 0
      then show ?thesis by simp
    next
      case (Suc k)
      then have "?N \<in> {1 .. ?N}" by simp
      then show ?thesis using s by simp
    qed
  qed
  finally show ?thesis .
qed

lemma dense_snoc:
  assumes "dense_ranks m"
      and "ranked_ranks m' = ranked_ranks m @ [fold max (ranked_ranks m) 0 + 1]"
  shows "dense_ranks m'"
proof -
  let ?rs = "ranked_ranks m"
  let ?N = "int (length ?rs)"
  have s: "set ?rs = {1 .. ?N}" and d: "distinct ?rs" using dense_set[OF assms(1)] by simp_all
  have rs': "ranked_ranks m' = ?rs @ [?N + 1]" using assms(2) fold_max_dense[OF assms(1)] by simp
  have "sort (?rs @ [?N + 1]) = [1 .. ?N + 1]"
  proof (rule sorted_distinct_set_unique)
    show "sorted (sort (?rs @ [?N + 1]))" by simp
    show "distinct (sort (?rs @ [?N + 1]))" using s d by simp
    show "sorted [1 .. ?N + 1]" by simp
    show "distinct [1 .. ?N + 1]" by simp
    show "set (sort (?rs @ [?N + 1])) = set [1 .. ?N + 1]" using s by auto
  qed
  then show ?thesis unfolding dense_ranks_def rs' by (simp add: add.commute)
qed

lemma splice_ranks:
  assumes "p < length m" and "rank c' = rank (snd (m ! p))"
  shows "ranked_ranks (take p m @ [(k', c')] @ drop (Suc p) m) = ranked_ranks m"
proof -
  obtain k0 c0 where mp: "m ! p = (k0, c0)" by (cases "m ! p")
  have "m = take p m @ m ! p # drop (Suc p) m"
    using assms(1) by (rule id_take_nth_drop)
  then have m: "m = take p m @ [(k0, c0)] @ drop (Suc p) m" using mp by simp
  have "ranked_ranks m = ranked_ranks (take p m) @ ranked_ranks [(k0, c0)] @ ranked_ranks (drop (Suc p) m)"
    by (subst m) (simp only: ranked_ranks_append)
  moreover have "rank c' = rank c0" using assms(2) mp by simp
  ultimately show ?thesis
    by (simp only: ranked_ranks_append ranked_ranks_single)
qed

lemma splice_keys:
  assumes "distinct (map fst m)" and "p < length m" and "k' = fst (m ! p) \<or> k' \<notin> fst ` set m"
  shows "distinct (map fst (take p m @ [(k', c')] @ drop (Suc p) m))"
proof -
  have "map fst m = take p (map fst m) @ map fst m ! p # drop (Suc p) (map fst m)"
    using assms(2) by (intro id_take_nth_drop) simp
  then have m: "map fst m = take p (map fst m) @ [fst (m ! p)] @ drop (Suc p) (map fst m)"
    using assms(2) by simp
  have d: "distinct (take p (map fst m) @ [fst (m ! p)] @ drop (Suc p) (map fst m))"
    using assms(1) m by simp
  have sub: "set (take p (map fst m)) \<subseteq> fst ` set m" "set (drop (Suc p) (map fst m)) \<subseteq> fst ` set m"
    using set_take_subset[of p "map fst m"] set_drop_subset[of "Suc p" "map fst m"] by auto
  show ?thesis
    using assms(3) d sub by (auto simp: take_map drop_map)
qed


text \<open>
  The add button: in a store with distinct keys and dense ranks, the handler keeps the
  ranks dense when the name in the entry is not the name of another category, that is,
  when it adds a category under a name no category has, or updates the selected category,
  which has a rank, under its old name or under a name no category has.
\<close>

theorem addButton_clicked_dense:
  assumes K: "distinct (map fst (categories st))"
      and D: "dense_ranks (categories st)"
      and C: "(button_label ui = ''Update Category'' \<and> selected_category ui = Some old
               \<and> map_of (categories st) old = Some c \<and> rank c \<noteq> None
               \<and> (entry_text_trimmed ui = old \<or> entry_text_trimmed ui \<notin> fst ` set (categories st)))
            \<or> (\<not> (button_label ui = ''Update Category'' \<and> selected_category ui \<noteq> None)
               \<and> entry_text_trimmed ui \<notin> fst ` set (categories st))"
  shows "dense_ranks (categories (addButton_clicked stringify write_ok ui st))"
proof -
  let ?m = "categories st"
  let ?n = "entry_text_trimmed ui"
  consider (add) "\<not> (button_label ui = ''Update Category'' \<and> selected_category ui \<noteq> None)"
      "?n \<notin> fst ` set ?m"
    | (update) "button_label ui = ''Update Category''" "selected_category ui = Some old"
      "map_of ?m old = Some c" "rank c \<noteq> None" "?n = old \<or> ?n \<notin> fst ` set ?m"
    using C by blast
  then show ?thesis
  proof cases
    case add
    note nu = add(1) and fresh = add(2)
    let ?new = "\<lparr>name = ?n, rank = Some (fold max (ranked_ranks ?m) 0 + 1),
                 apps = sort_key app_rank (selectedRows ui)\<rparr>"
    have "categories (addButton_clicked stringify write_ok ui st) = ?m @ [(?n, ?new)]"
      using nu Map_set_fresh[OF fresh]
      by (auto simp: addButton_clicked_def Let_def saveCategoriesToFile_def ranked_ranks_def)
    then have "ranked_ranks (categories (addButton_clicked stringify write_ok ui st))
             = ranked_ranks ?m @ [fold max (ranked_ranks ?m) 0 + 1]"
      by (simp add: ranked_ranks_append ranked_ranks_single)
    then show ?thesis by (rule dense_snoc[OF D])
  next
    case update
    note u = update(1,2) and G = update(3) and r = update(4) and nm = update(5)
    obtain p where p: "p < length ?m" "?m ! p = (old, c)"
      and p_only: "\<And>i. i < length ?m \<Longrightarrow> fst (?m ! i) = old \<Longrightarrow> i = p"
      using key_position[OF K G] by blast
    have ix: "indexOf (map fst ?m) old = int p"
      unfolding indexOf_def
    proof (rule findIndex_first)
      show "p < length (map fst ?m)" using p by simp
      show "map fst ?m ! p = old" using p by simp
      show "\<forall>j'<p. map fst ?m ! j' \<noteq> old"
        using p_only p(1) by (metis less_irrefl_nat less_trans nth_map)
    qed
    obtain r' where r': "rank c = Some r'" using r by auto
    let ?new = "\<lparr>name = ?n, rank = Some r', apps = sort_key app_rank (selectedRows ui)\<rparr>"
    let ?spliced = "take p ?m @ [(?n, ?new)] @ drop (Suc p) ?m"
    have dk: "distinct (map fst ?spliced)"
      using nm p by (intro splice_keys[OF K p(1)]) auto
    have "categories (addButton_clicked stringify write_ok ui st) = new_Map ?spliced"
      using u G r' ix
      by (simp add: addButton_clicked_def Let_def saveCategoriesToFile_def)
    then have "categories (addButton_clicked stringify write_ok ui st) = ?spliced"
      using new_Map_distinct[OF dk] by simp
    moreover have "ranked_ranks ?spliced = ranked_ranks ?m"
      using p r' by (intro splice_ranks) simp_all
    ultimately show ?thesis using D by (simp add: dense_ranks_def)
  qed
qed

theorem addButton_clicked_dense_witness:
  "dense_ranks (categories (editor [(''Work'', Work), (''Play'', Play)]))
   \<and> dense_ranks (categories (addButton_clicked (\<lambda>v. []) True add_Games
        (editor [(''Work'', Work), (''Play'', Play)])))"
  using addButton_clicked_dense[of "editor [(''Work'', Work), (''Play'', Play)]" add_Games
      "[]" Work "\<lambda>v. []" True]
  by (simp add: editor_def Work_def Play_def add_Games_def dense_ranks_def ranked_ranks_def
      List.map_filter_def upto.simps)

end
